theory Spec2Isabelle
  imports Complex_Main "HOL-Library.Word" "HOL-Library.Multiset"
begin

section \<open>Data model of the task queue (src/queue.c)\<close>

text \<open>
  Weights and overlap scores are C \<open>float\<close>s. The queue compares them with \<open><\<close> and \<open>>\<close>
  and does nothing else with them. A \<open>float\<close> is a number or NaN: \<open>Float r\<close> is a float
  that is not NaN, and every comparison with NaN is false, as in C; \<open>a > b\<close> is \<open>b < a\<close>.
  The two infinities compare with all floats as numbers above and below all others do,
  so they need no value of their own where floats are only compared.
\<close>

datatype float = Float real | NaN

instantiation float :: ord
begin

definition less_float :: "float \<Rightarrow> float \<Rightarrow> bool" where
  "less_float a b = (case (a, b) of (Float x, Float y) \<Rightarrow> x < y | _ \<Rightarrow> False)"

definition less_eq_float :: "float \<Rightarrow> float \<Rightarrow> bool" where
  "less_eq_float a b = (case (a, b) of (Float x, Float y) \<Rightarrow> x \<le> y | _ \<Rightarrow> False)"

instance ..

end

text \<open>
  A task is external to the queue; the queue reads only its \<open>weight\<close>, a \<open>float\<close>. The
  functions of \<open>queue.c\<close> are written here for any type \<open>'w\<close> of weights that has the
  comparisons \<open><\<close> and \<open>\<le>\<close>: the program is their instance where \<open>'w\<close> is \<open>float\<close>, and the
  theorems on the program are stated there. The instance where \<open>'w\<close> is \<open>real\<close> is what the
  program does on weights that are not NaN; the lemmas on the heap order are proved for
  it and carried over to floats.
\<close>

record 'w task =
  weight :: 'w

text \<open>
  \<open>struct queue\<close>. \<open>q->tasks\<close> is a bare pointer into an externally owned array, for which
  the queue holds no bound: it is a map from task index to task. \<open>q->tid\<close> is the
  allocated heap array (its length is the allocation), of which the first \<open>count\<close> entries
  are in use. The fields \<open>size\<close> and \<open>count\<close> carry a suffix, as the plain names are HOL
  constants. The three incoming counters are \<open>unsigned int\<close> and wrap around. The queue
  lock is a flag: \<open>True\<close> when it is held.
\<close>

record 'w queue =
  lock :: bool
  size_q :: nat
  count_q :: nat
  tasks :: "int \<Rightarrow> 'w task"
  tid :: "int list"
  tid_incoming :: "int list"
  first_incoming :: "32 word"
  last_incoming :: "32 word"
  count_incoming :: "32 word"

text \<open>
  The compile-time constants of \<open>queue.h\<close>, which is not part of the sources at hand:
  they are parameters of the model.
\<close>

record queue_params =
  queue_sizeinit :: nat
  queue_sizegrow :: nat
  queue_incoming_size :: nat
  queue_search_window :: nat

text \<open>
  What ends a call other than a return: a failed \<open>malloc\<close> and a failed unlock end in
  \<open>error(...)\<close>, which aborts; an index outside an array and a remainder by zero are
  undefined behaviour in C and are results of their own here.
\<close>

datatype error = Alloc_failed | Lock_failed | Out_of_bounds | Division_by_zero

subsection \<open>The lock primitives\<close>

text \<open>
  Modelled from the spec: the lock primitives of \<open>lock.h\<close> are missing from the sources.
  The spec gives the queue one mutual-exclusion lock, with a blocking and a non-blocking
  acquisition; the functions return 0 on success, as the tests \<open>!= 0\<close> and \<open>== 0\<close> of
  \<open>queue.c\<close> read them. Each returns its code and the new state of the flag.
\<close>

definition lock_trylock :: "bool \<Rightarrow> int \<times> bool" where
  "lock_trylock l = (if l then (1, l) else (0, True))"

text \<open>
  Modelled from the spec: the blocking acquisition waits until the lock is free. With
  nobody to release a held lock the wait never ends, which is the value \<open>None\<close>.
\<close>

partial_function (option) lock_lock :: "bool \<Rightarrow> (int \<times> bool) option" where
  "lock_lock l = (if l then lock_lock l else Some (0, True))"

declare lock_lock.simps [code]

text \<open>
  Modelled from the spec: releasing a held lock succeeds; releasing a lock that is not
  held is the locking failure of the spec's error taxonomy.
\<close>

definition lock_unlock :: "bool \<Rightarrow> int \<times> bool" where
  "lock_unlock l = (if l then (0, False) else (1, l))"

definition lock_unlock_blind :: "bool \<Rightarrow> bool" where
  "lock_unlock_blind l = False"

section \<open>Heap maintenance\<close>

subsection \<open>\<open>queue_bubble_up\<close>\<close>

text \<open>
  The \<open>while (ind > 0)\<close> loop of \<open>queue_bubble_up\<close>. The weight \<open>w\<close> is read once, before
  the loop. The three assignments of the swap read \<open>tid[ind]\<close> into \<open>temp\<close> first.
\<close>

function bubble_up_loop ::
  "(int \<Rightarrow> 'w::ord task) \<Rightarrow> 'w \<Rightarrow> int list \<Rightarrow> nat \<Rightarrow> int list \<times> nat" where
  "bubble_up_loop qtasks w qtid ind =
     (if ind > 0 then
        (let parent = (ind - 1) div 2 in
         if w < weight (qtasks (qtid ! parent)) then (qtid, ind)
         else bubble_up_loop qtasks w (qtid[ind := qtid ! parent, parent := qtid ! ind]) parent)
      else (qtid, ind))"
  by pat_completeness auto
termination
  by (relation "measure (\<lambda>(qtasks, w, qtid, ind). ind)") auto

declare bubble_up_loop.simps [simp del]

definition queue_bubble_up :: "'w::ord queue \<Rightarrow> nat \<Rightarrow> 'w queue \<times> nat" where
  "queue_bubble_up q ind =
     (let w = weight (tasks q (tid q ! ind));
          (qtid, ind') = bubble_up_loop (tasks q) w (tid q) ind
      in (q\<lparr>tid := qtid\<rparr>, ind'))"

subsection \<open>\<open>queue_sift_down\<close>\<close>

text \<open>
  The choice of the child in the loop body of \<open>queue_sift_down\<close> (the lines from
  \<open>int child = 2 * ind + 1\<close> to \<open>child += 1\<close>), for an entry that has a child.
\<close>

definition sift_down_child :: "(int \<Rightarrow> 'w::ord task) \<Rightarrow> int list \<Rightarrow> nat \<Rightarrow> nat \<Rightarrow> nat" where
  "sift_down_child qtasks qtid qcount ind =
     (let child = 2 * ind + 1 in
      if child + 1 < qcount \<and>
         weight (qtasks (qtid ! (child + 1))) > weight (qtasks (qtid ! child))
      then child + 1 else child)"

function sift_down_loop ::
  "(int \<Rightarrow> 'w::ord task) \<Rightarrow> 'w \<Rightarrow> int list \<Rightarrow> nat \<Rightarrow> nat \<Rightarrow> int list \<times> nat" where
  "sift_down_loop qtasks w qtid qcount ind =
     (if 2 * ind + 1 \<ge> qcount then (qtid, ind)
      else
        (let child = sift_down_child qtasks qtid qcount ind in
         if weight (qtasks (qtid ! child)) > w
         then sift_down_loop qtasks w (qtid[child := qtid ! ind, ind := qtid ! child]) qcount child
         else (qtid, ind)))"
  by pat_completeness auto
termination
  by (relation "measure (\<lambda>(qtasks, w, qtid, qcount, ind). qcount - ind)")
     (auto simp: sift_down_child_def Let_def)

declare sift_down_loop.simps [simp del]

definition queue_sift_down :: "'w::ord queue \<Rightarrow> nat \<Rightarrow> 'w queue \<times> nat" where
  "queue_sift_down q ind =
     (let w = weight (tasks q (tid q ! ind));
          (qtid, ind') = sift_down_loop (tasks q) w (tid q) (count_q q) ind
      in (q\<lparr>tid := qtid\<rparr>, ind'))"

section \<open>The incoming buffer\<close>

subsection \<open>\<open>queue_get_incoming\<close>\<close>

text \<open>
  Growing the heap array: \<open>size\<close> is multiplied by \<open>queue_sizegrow\<close>, a new array of that
  many entries is allocated (the parameter \<open>malloc_ok\<close> tells whether an allocation of
  the given number of entries succeeds), and the \<open>count\<close> entries in use are copied. What
  \<open>malloc\<close> leaves in the rest of the new array is arbitrary; the model writes 0 there.
\<close>

definition queue_grow :: "queue_params \<Rightarrow> (nat \<Rightarrow> bool) \<Rightarrow> 'w::ord queue \<Rightarrow> error + 'w queue" where
  "queue_grow P malloc_ok q =
     (let new_size = size_q q * queue_sizegrow P in
      if \<not> malloc_ok new_size then Inl Alloc_failed
      else Inr (q\<lparr>size_q := new_size,
                  tid := take (count_q q) (tid q) @ replicate (new_size - count_q q) 0\<rparr>))"

text \<open>
  Modelled from the spec: the atomic operations of \<open>atomic.h\<close> are missing from the
  sources. \<open>atomic_swap\<close> stores the new value and returns the old one; \<open>atomic_inc\<close> and
  \<open>atomic_dec\<close> add and subtract one and return the value before; \<open>atomic_cas\<close> stores the
  new value when the old one is the expected one and returns the old one. They are
  inlined below where \<open>queue.c\<close> calls them.
\<close>

definition incoming_pending :: "int list \<Rightarrow> nat" where
  "incoming_pending xs = length (filter (\<lambda>x. 0 \<le> x) xs)"

lemma incoming_pending_take:
  "i < length xs \<Longrightarrow> 0 \<le> xs ! i \<Longrightarrow> incoming_pending (xs[i := - 1]) < incoming_pending xs"
proof (induction xs arbitrary: i)
  case Nil
  then show ?case by simp
next
  case (Cons x xs)
  show ?case
  proof (cases i)
    case 0
    with Cons.prems show ?thesis by (simp add: incoming_pending_def)
  next
    case (Suc j)
    with Cons.prems Cons.IH [of j] show ?thesis by (simp add: incoming_pending_def)
  qed
qed

lemma bubble_up_loop_length [simp]:
  "length (fst (bubble_up_loop qtasks w qtid ind)) = length qtid"
proof (induction qtasks w qtid ind rule: bubble_up_loop.induct)
  case (1 qtasks w qtid ind)
  show ?case
    using "1.IH" by (subst bubble_up_loop.simps) (simp add: Let_def)
qed

lemma queue_bubble_up_frame [simp]:
  "tid_incoming (fst (queue_bubble_up q ind)) = tid_incoming q"
  "first_incoming (fst (queue_bubble_up q ind)) = first_incoming q"
  "last_incoming (fst (queue_bubble_up q ind)) = last_incoming q"
  "count_incoming (fst (queue_bubble_up q ind)) = count_incoming q"
  "count_q (fst (queue_bubble_up q ind)) = count_q q"
  "size_q (fst (queue_bubble_up q ind)) = size_q q"
  "tasks (fst (queue_bubble_up q ind)) = tasks q"
  "lock (fst (queue_bubble_up q ind)) = lock q"
  by (simp_all add: queue_bubble_up_def Let_def case_prod_beta)

text \<open>
  One round of the \<open>while (1)\<close> loop of \<open>queue_get_incoming\<close>, from \<open>atomic_swap\<close> on,
  for the slot \<open>ind\<close> that the round found occupied: the slot is emptied and
  \<open>first_incoming\<close> advanced, the heap array is grown when it is full, the offset is put
  behind the last heap entry and bubbled up.
\<close>

definition get_incoming_round ::
  "queue_params \<Rightarrow> (nat \<Rightarrow> bool) \<Rightarrow> 'w::ord queue \<Rightarrow> nat \<Rightarrow> error + 'w queue" where
  "get_incoming_round P malloc_ok q ind =
     (let offset = tid_incoming q ! ind;
          q1 = q\<lparr>tid_incoming := (tid_incoming q)[ind := - 1],
                 first_incoming := first_incoming q + 1\<rparr>
      in case (if count_q q1 = size_q q1 then queue_grow P malloc_ok q1 else Inr q1) of
           Inl e \<Rightarrow> Inl e
         | Inr q2 \<Rightarrow>
             (let q3 = q2\<lparr>tid := (tid q2)[count_q q2 := offset],
                           count_q := count_q q2 + 1,
                           count_incoming := count_incoming q2 - 1\<rparr>
              in Inr (fst (queue_bubble_up q3 (count_q q3 - 1)))))"

lemma get_incoming_round_incoming:
  "get_incoming_round P malloc_ok q ind = Inr q' \<Longrightarrow>
   tid_incoming q' = (tid_incoming q)[ind := - 1]"
  by (auto simp: get_incoming_round_def queue_grow_def Let_def split: if_splits)

text \<open>
  The \<open>while (1)\<close> loop of \<open>queue_get_incoming\<close>. Each round that does not leave the loop
  empties an occupied slot, so the loop ends.
\<close>

function queue_get_incoming ::
  "queue_params \<Rightarrow> (nat \<Rightarrow> bool) \<Rightarrow> 'w::ord queue \<Rightarrow> error + 'w queue" where
  "queue_get_incoming P malloc_ok q =
     (if queue_incoming_size P = 0 then Inl Division_by_zero
      else
        (let ind = unat (first_incoming q) mod queue_incoming_size P in
         if ind \<ge> length (tid_incoming q) then Inl Out_of_bounds
         else if tid_incoming q ! ind < 0 then Inr q
         else
           (case get_incoming_round P malloc_ok q ind of
              Inl e \<Rightarrow> Inl e
            | Inr q' \<Rightarrow> queue_get_incoming P malloc_ok q')))"
  by pat_completeness auto
termination
proof (relation "measure (\<lambda>(P, malloc_ok, q). incoming_pending (tid_incoming q))", goal_cases)
  case 1
  show ?case by simp
next
  case (2 P malloc_ok q ind q')
  then show ?case
    by (simp add: get_incoming_round_incoming incoming_pending_take)
qed

declare queue_get_incoming.simps [simp del]

subsection \<open>\<open>queue_insert\<close>\<close>

text \<open>
  The spin loop of \<open>queue_insert\<close>: \<open>atomic_cas\<close> stores the offset when the slot holds
  \<open>-1\<close>; otherwise the producer tries the queue lock and, when it gets it, drains the
  incoming buffer and releases the lock. The loop has no bound, so not returning is the
  value \<open>None\<close>.
\<close>

partial_function (option) queue_insert_spin ::
  "queue_params \<Rightarrow> (nat \<Rightarrow> bool) \<Rightarrow> nat \<Rightarrow> int \<Rightarrow> 'w::ord queue \<Rightarrow>
   (error + 'w queue) option" where
  "queue_insert_spin P malloc_ok ind offset q =
     (if ind \<ge> length (tid_incoming q) then Some (Inl Out_of_bounds)
      else if tid_incoming q ! ind = - 1
      then Some (Inr (q\<lparr>tid_incoming := (tid_incoming q)[ind := offset]\<rparr>))
      else if fst (lock_trylock (lock q)) = 0
      then (case queue_get_incoming P malloc_ok (q\<lparr>lock := snd (lock_trylock (lock q))\<rparr>) of
              Inl e \<Rightarrow> Some (Inl e)
            | Inr q1 \<Rightarrow>
                if fst (lock_unlock (lock q1)) \<noteq> 0 then Some (Inl Lock_failed)
                else queue_insert_spin P malloc_ok ind offset
                       (q1\<lparr>lock := snd (lock_unlock (lock q1))\<rparr>))
      else queue_insert_spin P malloc_ok ind offset q)"

declare queue_insert_spin.simps [code]

text \<open>
  \<open>queue_insert\<close>; \<open>t\<close> is the offset \<open>t - q->tasks\<close> of the task in the task array.
\<close>

definition queue_insert ::
  "queue_params \<Rightarrow> (nat \<Rightarrow> bool) \<Rightarrow> 'w::ord queue \<Rightarrow> int \<Rightarrow> (error + 'w queue) option" where
  "queue_insert P malloc_ok q t =
     (if queue_incoming_size P = 0 then Some (Inl Division_by_zero)
      else
        (let ind = unat (last_incoming q) mod queue_incoming_size P;
             q1 = q\<lparr>last_incoming := last_incoming q + 1\<rparr>
         in case queue_insert_spin P malloc_ok ind t q1 of
              None \<Rightarrow> None
            | Some (Inl e) \<Rightarrow> Some (Inl e)
            | Some (Inr q2) \<Rightarrow> Some (Inr (q2\<lparr>count_incoming := count_incoming q2 + 1\<rparr>))))"

subsection \<open>\<open>queue_init\<close>\<close>

text \<open>
  \<open>queue_init\<close> sets every field of the queue. The lock is free after \<open>lock_init\<close>; the
  fresh heap array holds arbitrary entries (0 here).
\<close>

definition queue_init ::
  "queue_params \<Rightarrow> (nat \<Rightarrow> bool) \<Rightarrow> (int \<Rightarrow> 'w::ord task) \<Rightarrow> error + 'w queue" where
  "queue_init P malloc_ok qtasks =
     (if \<not> malloc_ok (queue_sizeinit P) then Inl Alloc_failed
      else if \<not> malloc_ok (queue_incoming_size P) then Inl Alloc_failed
      else Inr \<lparr>lock = False,
                size_q = queue_sizeinit P,
                count_q = 0,
                tasks = qtasks,
                tid = replicate (queue_sizeinit P) 0,
                tid_incoming = replicate (queue_incoming_size P) (- 1),
                first_incoming = 0,
                last_incoming = 0,
                count_incoming = 0\<rparr>)"

section \<open>Task selection: \<open>queue_gettask\<close>\<close>

text \<open>
  An entry of the sliding window, the anonymous struct \<open>{ind, tid, score}\<close> of
  \<open>queue_gettask\<close>; the fields carry a prefix, as \<open>tid\<close> is a field of the queue.
\<close>

record window_entry =
  w_ind :: int
  w_tid :: int
  w_score :: float

text \<open>
  The window is an array of \<open>queue_search_window\<close> entries: a list of that length. What the
  array holds before it is written is arbitrary (zeros here). Every access to it is
  checked against its length; an access outside is \<open>Out_of_bounds\<close>.

  The loop \<open>for (i = 1; i < window_count; i++)\<close> that finds the first entry of the highest
  score, run from \<open>i = 1\<close> and \<open>ind_max = 0\<close>.
\<close>

function gettask_ind_max :: "window_entry list \<Rightarrow> nat \<Rightarrow> nat \<Rightarrow> nat \<Rightarrow> error + nat" where
  "gettask_ind_max window window_count i ind_max =
     (if i < window_count then
        (if i < length window \<and> ind_max < length window then
           gettask_ind_max window window_count (i + 1)
             (if w_score (window ! i) > w_score (window ! ind_max) then i else ind_max)
         else Inl Out_of_bounds)
      else Inr ind_max)"
  by pat_completeness auto
termination
  by (relation "measure (\<lambda>(window, window_count, i, ind_max). window_count - i)") auto

declare gettask_ind_max.simps [simp del]

text \<open>
  The two external task operations are parameters: \<open>overlap t\<close> is
  \<open>task_overlap(prev, &qtasks[t])\<close> for the \<open>prev\<close> of the call, and \<open>task_lock l t\<close> is the
  trylock of task \<open>t\<close> in the state \<open>l\<close> of the task locks, returning whether the task was
  locked and the new state.

  The loop \<open>for (k = 0; k < old_qcount; k++)\<close> over the heap entries. It returns the
  window, \<open>window_count\<close>, \<open>tid\<close>, \<open>ind\<close> and the state of the task locks.
\<close>

function gettask_scan ::
  "nat \<Rightarrow> (int \<Rightarrow> float) \<Rightarrow> ('l \<Rightarrow> int \<Rightarrow> bool \<times> 'l) \<Rightarrow> int list \<Rightarrow> nat \<Rightarrow> nat \<Rightarrow>
   window_entry list \<Rightarrow> nat \<Rightarrow> 'l \<Rightarrow> error + (window_entry list \<times> nat \<times> int \<times> int \<times> 'l)" where
  "gettask_scan search_window overlap task_lock qtid old_qcount k window window_count l =
     (if k < old_qcount then
        (if k < search_window then
           (if window_count < length window then
              gettask_scan search_window overlap task_lock qtid old_qcount (k + 1)
                (window[window_count :=
                   \<lparr>w_ind = int k, w_tid = qtid ! k, w_score = overlap (qtid ! k)\<rparr>])
                (window_count + 1) l
            else Inl Out_of_bounds)
         else
           (case gettask_ind_max window window_count 1 0 of
              Inl e \<Rightarrow> Inl e
            | Inr ind_max \<Rightarrow>
                if ind_max < length window then
                  (if fst (task_lock l (w_tid (window ! ind_max)))
                   then Inr (window, window_count, w_tid (window ! ind_max),
                             w_ind (window ! ind_max),
                             snd (task_lock l (w_tid (window ! ind_max))))
                   else gettask_scan search_window overlap task_lock qtid old_qcount (k + 1)
                          (window[ind_max :=
                             \<lparr>w_ind = int k, w_tid = qtid ! k, w_score = overlap (qtid ! k)\<rparr>])
                          window_count
                          (snd (task_lock l (w_tid (window ! ind_max)))))
                else Inl Out_of_bounds))
      else Inr (window, window_count, - 1, - 1, l))"
  by pat_completeness auto
termination
  by (relation "measure (\<lambda>(search_window, overlap, task_lock, qtid, old_qcount, k, r).
                           old_qcount - k)") auto

declare gettask_scan.simps [simp del]

text \<open>
  The loop \<open>while (window_count > 0)\<close> over what is left in the window. It is entered
  with the \<open>tid\<close> and \<open>ind\<close> the scan left, and leaves them as they are when no task of the
  window can be locked.
\<close>

function gettask_fallback ::
  "('l \<Rightarrow> int \<Rightarrow> bool \<times> 'l) \<Rightarrow> window_entry list \<Rightarrow> nat \<Rightarrow> int \<Rightarrow> int \<Rightarrow> 'l \<Rightarrow>
   error + (int \<times> int \<times> 'l)" where
  "gettask_fallback task_lock window window_count tid0 ind0 l =
     (if window_count > 0 then
        (case gettask_ind_max window window_count 1 0 of
           Inl e \<Rightarrow> Inl e
         | Inr ind_max \<Rightarrow>
             if ind_max < length window then
               (if fst (task_lock l (w_tid (window ! ind_max)))
                then Inr (w_tid (window ! ind_max), w_ind (window ! ind_max),
                          snd (task_lock l (w_tid (window ! ind_max))))
                else
                  (if window_count - 1 < length window then
                     gettask_fallback task_lock
                       (window[ind_max := window ! (window_count - 1)]) (window_count - 1)
                       tid0 ind0 (snd (task_lock l (w_tid (window ! ind_max))))
                   else Inl Out_of_bounds))
             else Inl Out_of_bounds)
      else Inr (tid0, ind0, l))"
  by pat_completeness auto
termination
  by (relation "measure (\<lambda>(task_lock, window, window_count, r). window_count)") auto

declare gettask_fallback.simps [simp del]

text \<open>
  The search of \<open>queue_gettask\<close>: the scan, then the fallback when the scan left
  \<open>tid < 0\<close>.
\<close>

definition gettask_search ::
  "nat \<Rightarrow> (int \<Rightarrow> float) \<Rightarrow> ('l \<Rightarrow> int \<Rightarrow> bool \<times> 'l) \<Rightarrow> int list \<Rightarrow> nat \<Rightarrow> 'l \<Rightarrow>
   error + (int \<times> int \<times> 'l)" where
  "gettask_search search_window overlap task_lock qtid old_qcount l =
     (case gettask_scan search_window overlap task_lock qtid old_qcount 0
             (replicate search_window \<lparr>w_ind = 0, w_tid = 0, w_score = Float 0\<rparr>) 0 l of
        Inl e \<Rightarrow> Inl e
      | Inr (window, window_count, tid1, ind1, l1) \<Rightarrow>
          if tid1 < 0 then gettask_fallback task_lock window window_count tid1 ind1 l1
          else Inr (tid1, ind1, l1))"

text \<open>
  The block \<open>if (ind >= 0) { ... }\<close>: the count is decremented and, unless the task was the
  last entry, the last entry takes its place and is moved up, then down.
\<close>

definition gettask_remove :: "'w::ord queue \<Rightarrow> nat \<Rightarrow> 'w queue" where
  "gettask_remove q ind =
     (let qcount = count_q q - 1;
          q1 = q\<lparr>count_q := qcount\<rparr>
      in if ind < qcount then
           (let q2 = q1\<lparr>tid := (tid q1)[ind := tid q1 ! qcount]\<rparr>;
                (q3, ind1) = queue_bubble_up q2 ind;
                (q4, ind2) = queue_sift_down q3 ind1
            in q4)
         else q1)"

text \<open>
  \<open>queue_gettask\<close> from the point where the queue lock is held. The result is the task
  returned (its index in the task array, \<open>None\<close> for \<open>NULL\<close>), the queue and the state of
  the task locks.
\<close>

definition gettask_locked ::
  "queue_params \<Rightarrow> (nat \<Rightarrow> bool) \<Rightarrow> (int option \<Rightarrow> int \<Rightarrow> float) \<Rightarrow> ('l \<Rightarrow> int \<Rightarrow> bool \<times> 'l) \<Rightarrow>
   'w::ord queue \<Rightarrow> 'l \<Rightarrow> int option \<Rightarrow> error + (int option \<times> 'w queue \<times> 'l)" where
  "gettask_locked P malloc_ok task_overlap task_lock q l prev =
     (case queue_get_incoming P malloc_ok q of
        Inl e \<Rightarrow> Inl e
      | Inr q1 \<Rightarrow>
          if count_q q1 = 0
          then Inr (None, q1\<lparr>lock := lock_unlock_blind (lock q1)\<rparr>, l)
          else
            (case gettask_search (queue_search_window P) (task_overlap prev) task_lock
                    (tid q1) (count_q q1) l of
               Inl e \<Rightarrow> Inl e
             | Inr (tid1, ind1, l1) \<Rightarrow>
                 (let (res, q2) =
                        (if ind1 \<ge> 0 then (Some tid1, gettask_remove q1 (nat ind1))
                         else (None, q1))
                  in if fst (lock_unlock (lock q2)) \<noteq> 0 then Inl Lock_failed
                     else Inr (res, q2\<lparr>lock := snd (lock_unlock (lock q2))\<rparr>, l1))))"

definition queue_gettask ::
  "queue_params \<Rightarrow> (nat \<Rightarrow> bool) \<Rightarrow> (int option \<Rightarrow> int \<Rightarrow> float) \<Rightarrow> ('l \<Rightarrow> int \<Rightarrow> bool \<times> 'l) \<Rightarrow>
   'w::ord queue \<Rightarrow> 'l \<Rightarrow> int option \<Rightarrow> bool \<Rightarrow> (error + (int option \<times> 'w queue \<times> 'l)) option" where
  "queue_gettask P malloc_ok task_overlap task_lock q l prev blocking =
     (if blocking then
        (case lock_lock (lock q) of
           None \<Rightarrow> None
         | Some (rc, lk) \<Rightarrow>
             if rc \<noteq> 0 then Some (Inl Lock_failed)
             else Some (gettask_locked P malloc_ok task_overlap task_lock (q\<lparr>lock := lk\<rparr>) l prev))
      else if fst (lock_trylock (lock q)) \<noteq> 0 then Some (Inr (None, q, l))
      else Some (gettask_locked P malloc_ok task_overlap task_lock
                   (q\<lparr>lock := snd (lock_trylock (lock q))\<rparr>) l prev))"

section \<open>Predicates of the specification\<close>

text \<open>
  The heap order on the first \<open>n\<close> entries of the heap array: the weight of every entry
  but the root is less than or equal to the weight of its parent. On floats this is the
  comparison of C, which no NaN passes. (The consistency checks of \<open>queue.c\<close> under
  \<open>SWIFT_DEBUG_CHECKS\<close> test that no parent weighs less than its child, which a NaN
  passes.)
\<close>

definition heap_on :: "(int \<Rightarrow> 'w::ord task) \<Rightarrow> int list \<Rightarrow> nat \<Rightarrow> bool" where
  "heap_on qtasks qtid n =
     (\<forall>k \<in> {1..<n}. weight (qtasks (qtid ! k)) \<le> weight (qtasks (qtid ! ((k - 1) div 2))))"

definition heap_ok :: "'w::ord queue \<Rightarrow> bool" where
  "heap_ok q = heap_on (tasks q) (tid q) (count_q q)"

text \<open>
  The heap order with a hole at \<open>i\<close>: the entry at \<open>i\<close> is not compared with its parent nor
  with its children, and the children of \<open>i\<close> do not outweigh the parent of \<open>i\<close>.
\<close>

definition grand_ok :: "(int \<Rightarrow> real task) \<Rightarrow> int list \<Rightarrow> nat \<Rightarrow> nat \<Rightarrow> bool" where
  "grand_ok qtasks qtid n i =
     (0 < i \<longrightarrow> (\<forall>c \<in> {1..<n}. (c - 1) div 2 = i \<longrightarrow>
        weight (qtasks (qtid ! c)) \<le> weight (qtasks (qtid ! ((i - 1) div 2)))))"

definition hole_ok :: "(int \<Rightarrow> real task) \<Rightarrow> int list \<Rightarrow> nat \<Rightarrow> nat \<Rightarrow> bool" where
  "hole_ok qtasks qtid n i =
     ((\<forall>k \<in> {1..<n}. k \<noteq> i \<and> (k - 1) div 2 \<noteq> i \<longrightarrow>
         weight (qtasks (qtid ! k)) \<le> weight (qtasks (qtid ! ((k - 1) div 2))))
      \<and> grand_ok qtasks qtid n i)"

text \<open>The hole may only be too heavy for its parent.\<close>

definition up_hole :: "(int \<Rightarrow> real task) \<Rightarrow> int list \<Rightarrow> nat \<Rightarrow> nat \<Rightarrow> bool" where
  "up_hole qtasks qtid n i =
     ((\<forall>k \<in> {1..<n}. k \<noteq> i \<longrightarrow>
         weight (qtasks (qtid ! k)) \<le> weight (qtasks (qtid ! ((k - 1) div 2))))
      \<and> grand_ok qtasks qtid n i)"

text \<open>The hole may only be too light for its children.\<close>

definition down_hole :: "(int \<Rightarrow> real task) \<Rightarrow> int list \<Rightarrow> nat \<Rightarrow> nat \<Rightarrow> bool" where
  "down_hole qtasks qtid n i =
     ((\<forall>k \<in> {1..<n}. (k - 1) div 2 \<noteq> i \<longrightarrow>
         weight (qtasks (qtid ! k)) \<le> weight (qtasks (qtid ! ((k - 1) div 2))))
      \<and> grand_ok qtasks qtid n i)"

text \<open>
  A well-formed heap store: \<open>size\<close> is the length of the allocated array, which is not
  empty, and the entries in use fit into it.
\<close>

definition queue_wf :: "'w::ord queue \<Rightarrow> bool" where
  "queue_wf q = (size_q q = length (tid q) \<and> count_q q \<le> size_q q \<and> 0 < size_q q)"

text \<open>
  The heap array after one round of the drain, before the new entry is bubbled up: grown
  when it was full, with the entry of slot \<open>ind\<close> of the incoming buffer at its end.
\<close>

definition round_tid :: "queue_params \<Rightarrow> 'w::ord queue \<Rightarrow> nat \<Rightarrow> int list" where
  "round_tid P q ind =
     (if count_q q = size_q q
      then take (count_q q) (tid q) @ replicate (size_q q * queue_sizegrow P - count_q q) 0
      else tid q)[count_q q := tid_incoming q ! ind]"

text \<open>
  The entries in use of a well-formed window are entries of the heap: each holds a heap
  index below \<open>n\<close>, the task index at that place and its score.
\<close>

definition win_ok ::
  "(int \<Rightarrow> float) \<Rightarrow> int list \<Rightarrow> nat \<Rightarrow> window_entry list \<Rightarrow> nat \<Rightarrow> bool" where
  "win_ok overlap qtid n window window_count =
     (window_count \<le> length window \<and>
      (\<forall>i < window_count. \<exists>j < n.
         window ! i = \<lparr>w_ind = int j, w_tid = qtid ! j, w_score = overlap (qtid ! j)\<rparr>))"

text \<open>What the search selects: nothing (\<open>ind < 0\<close>), or a heap index and the task there.\<close>

definition sel_ok :: "int list \<Rightarrow> nat \<Rightarrow> int \<Rightarrow> int \<Rightarrow> bool" where
  "sel_ok qtid n tid1 ind1 = (ind1 < 0 \<or> (\<exists>j < n. ind1 = int j \<and> tid1 = qtid ! j))"

text \<open>The task indices in the heap are offsets into the task array: none is negative.\<close>

definition heap_refs_ok :: "'w::ord queue \<Rightarrow> bool" where
  "heap_refs_ok q = (\<forall>t \<in> set (take (count_q q) (tid q)). 0 \<le> t)"

text \<open>
  When a failed trylock leaves the task locks as they were, the search is decided by
  which tasks can be locked in the state \<open>l\<close> it starts in. Every heap entry below \<open>k\<close> is
  then in the window or has failed its trylock.
\<close>

definition covered ::
  "('l \<Rightarrow> int \<Rightarrow> bool \<times> 'l) \<Rightarrow> 'l \<Rightarrow> int list \<Rightarrow> window_entry list \<Rightarrow> nat \<Rightarrow> nat \<Rightarrow> bool" where
  "covered task_lock l qtid window window_count k =
     (\<forall>j < k. (\<exists>i < window_count. w_ind (window ! i) = int j) \<or> \<not> fst (task_lock l (qtid ! j)))"

definition found ::
  "('l \<Rightarrow> int \<Rightarrow> bool \<times> 'l) \<Rightarrow> 'l \<Rightarrow> int list \<Rightarrow> nat \<Rightarrow> int \<Rightarrow> int \<Rightarrow> 'l \<Rightarrow> bool" where
  "found task_lock l qtid n tid1 ind1 l1 =
     (0 \<le> ind1 \<and> (\<exists>j < n. ind1 = int j \<and> tid1 = qtid ! j) \<and>
      fst (task_lock l tid1) \<and> l1 = snd (task_lock l tid1))"

text \<open>
  The slot of the \<open>i\<close>-th pending entry, counted from \<open>first_incoming\<close>, which wraps
  around as an \<open>unsigned int\<close> does.
\<close>

definition slot :: "queue_params \<Rightarrow> 'w::ord queue \<Rightarrow> nat \<Rightarrow> nat" where
  "slot P q i = unat (first_incoming q + of_nat i) mod queue_incoming_size P"

text \<open>
  A consistent incoming buffer with \<open>n\<close> pending entries: the buffer has
  \<open>queue_incoming_size\<close> slots, the slots of the \<open>n\<close> entries after \<open>first_incoming\<close> are
  distinct and hold task indices, and every other slot holds \<open>-1\<close>.
\<close>

definition ring_ok :: "queue_params \<Rightarrow> 'w::ord queue \<Rightarrow> nat \<Rightarrow> bool" where
  "ring_ok P q n =
     (0 < queue_incoming_size P \<and> length (tid_incoming q) = queue_incoming_size P \<and>
      distinct (map (slot P q) [0..<n]) \<and>
      (\<forall>j < queue_incoming_size P.
         if j \<in> slot P q ` {..<n} then 0 \<le> tid_incoming q ! j else tid_incoming q ! j = - 1))"

definition ring_counts :: "'w::ord queue \<Rightarrow> nat \<Rightarrow> bool" where
  "ring_counts q n =
     (last_incoming q = first_incoming q + of_nat n \<and> count_incoming q = of_nat n)"

text \<open>The pending entries, oldest first.\<close>

definition pending :: "queue_params \<Rightarrow> 'w::ord queue \<Rightarrow> nat \<Rightarrow> int list" where
  "pending P q n = map (\<lambda>i. tid_incoming q ! slot P q i) [0..<n]"

definition heap_mset :: "'w::ord queue \<Rightarrow> int multiset" where
  "heap_mset q = mset (take (count_q q) (tid q))"

text \<open>The tasks a call of \<open>queue_gettask\<close> hands out: one, or none for \<open>NULL\<close>.\<close>

definition returned :: "int option \<Rightarrow> int list" where
  "returned res = (case res of None \<Rightarrow> [] | Some t \<Rightarrow> [t])"

text \<open>
  The operations that a sequential client runs on a queue: an insert of a task, a drain
  of the incoming buffer, and a \<open>queue_gettask\<close> with its \<open>prev\<close> and \<open>blocking\<close>
  arguments. \<open>queue_run\<close> runs a list of them and collects the tasks that
  \<open>queue_gettask\<close> handed out; it stops at the first operation that aborts, and does not
  return when an operation does not.
\<close>

datatype op = Insert int | Drain | Gettask "int option" bool

fun queue_run ::
  "queue_params \<Rightarrow> (nat \<Rightarrow> bool) \<Rightarrow> (int option \<Rightarrow> int \<Rightarrow> float) \<Rightarrow> ('l \<Rightarrow> int \<Rightarrow> bool \<times> 'l) \<Rightarrow>
   op list \<Rightarrow> 'w::ord queue \<Rightarrow> 'l \<Rightarrow> int list \<Rightarrow> (error + 'w queue \<times> 'l \<times> int list) option" where
  "queue_run P malloc_ok task_overlap task_lock [] q l rs = Some (Inr (q, l, rs))"
| "queue_run P malloc_ok task_overlap task_lock (Insert t # ops) q l rs =
     (case queue_insert P malloc_ok q t of
        None \<Rightarrow> None
      | Some (Inl e) \<Rightarrow> Some (Inl e)
      | Some (Inr q') \<Rightarrow> queue_run P malloc_ok task_overlap task_lock ops q' l rs)"
| "queue_run P malloc_ok task_overlap task_lock (Drain # ops) q l rs =
     (case queue_get_incoming P malloc_ok q of
        Inl e \<Rightarrow> Some (Inl e)
      | Inr q' \<Rightarrow> queue_run P malloc_ok task_overlap task_lock ops q' l rs)"
| "queue_run P malloc_ok task_overlap task_lock (Gettask prev blocking # ops) q l rs =
     (case queue_gettask P malloc_ok task_overlap task_lock q l prev blocking of
        None \<Rightarrow> None
      | Some (Inl e) \<Rightarrow> Some (Inl e)
      | Some (Inr (res, q', l')) \<Rightarrow>
          queue_run P malloc_ok task_overlap task_lock ops q' l' (rs @ returned res))"

text \<open>The tasks that a list of operations inserts.\<close>

fun inserted :: "op list \<Rightarrow> int list" where
  "inserted [] = []"
| "inserted (Insert t # ops) = t # inserted ops"
| "inserted (Drain # ops) = inserted ops"
| "inserted (Gettask prev blocking # ops) = inserted ops"

text \<open>Each task inserted, then drained into the heap.\<close>

fun insert_drain :: "int list \<Rightarrow> op list" where
  "insert_drain [] = []"
| "insert_drain (t # ts) = Insert t # Drain # insert_drain ts"

section \<open>Weights that are not NaN\<close>

text \<open>
  The number that a float other than NaN stands for; on such floats the comparisons of C
  are those of the numbers.
\<close>

fun float_val :: "float \<Rightarrow> real" where
  "float_val (Float r) = r"
| "float_val NaN = 0"

text \<open>
  The task array and the queue with these numbers for weights: on them the functions of
  \<open>queue.c\<close> are taken at the type \<open>real\<close> of weights.
\<close>

definition real_tasks :: "(int \<Rightarrow> float task) \<Rightarrow> int \<Rightarrow> real task" where
  "real_tasks qtasks t = \<lparr>weight = float_val (weight (qtasks t))\<rparr>"

definition real_queue :: "float queue \<Rightarrow> real queue" where
  "real_queue q =
     \<lparr>lock = lock q, size_q = size_q q, count_q = count_q q, tasks = real_tasks (tasks q),
      tid = tid q, tid_incoming = tid_incoming q, first_incoming = first_incoming q,
      last_incoming = last_incoming q, count_incoming = count_incoming q\<rparr>"

text \<open>
  No task in the heap and no task that waits in the incoming buffer has the weight NaN.
\<close>

definition weights_ok :: "float queue \<Rightarrow> bool" where
  "weights_ok q =
     ((\<forall>t \<in> set (take (count_q q) (tid q)). weight (tasks q t) \<noteq> NaN) \<and>
      (\<forall>t \<in> set (tid_incoming q). 0 \<le> t \<longrightarrow> weight (tasks q t) \<noteq> NaN))"

section \<open>Example data\<close>

text \<open>
  Four tasks of weights 5, 1, 9 and 3, small constants (so that the heap array has to
  grow), an allocator that never fails, task locks that are always free and an overlap
  that is 0 for every pair of tasks.
\<close>

definition example_tasks :: "int \<Rightarrow> float task" where
  "example_tasks i =
     \<lparr>weight = Float (if i = 0 then 5 else if i = 1 then 1 else if i = 2 then 9 else 3)\<rparr>"

definition example_params :: queue_params where
  "example_params =
     \<lparr>queue_sizeinit = 2, queue_sizegrow = 2, queue_incoming_size = 4,
      queue_search_window = 2\<rparr>"

definition malloc_always :: "nat \<Rightarrow> bool" where
  "malloc_always n = True"

definition lock_always :: "unit \<Rightarrow> int \<Rightarrow> bool \<times> unit" where
  "lock_always l t = (True, l)"

definition overlap_zero :: "int option \<Rightarrow> int \<Rightarrow> float" where
  "overlap_zero prev t = Float 0"

text \<open>The queue after the four tasks were inserted in this order and drained.\<close>

definition example_queue :: "float queue" where
  "example_queue =
     \<lparr>lock = False, size_q = 4, count_q = 4, tasks = example_tasks, tid = [2, 3, 0, 1],
      tid_incoming = [- 1, - 1, - 1, - 1], first_incoming = 4, last_incoming = 4,
      count_incoming = 0\<rparr>"

text \<open>Three tasks, of which the two children of the root weigh the same.\<close>

definition tie_tasks :: "int \<Rightarrow> float task" where
  "tie_tasks i = \<lparr>weight = Float (if i = 0 then 1 else 5)\<rparr>"

definition tie_queue :: "float queue" where
  "tie_queue =
     \<lparr>lock = False, size_q = 4, count_q = 3, tasks = tie_tasks, tid = [0, 1, 2, 0],
      tid_incoming = [- 1, - 1, - 1, - 1], first_incoming = 3, last_incoming = 3,
      count_incoming = 0\<rparr>"

text \<open>
  Task locks for the examples: the state is the list of the tasks that are locked; the
  trylock of a task fails when the task is in the list and adds it otherwise.
\<close>

definition lock_unless_busy :: "int list \<Rightarrow> int \<Rightarrow> bool \<times> int list" where
  "lock_unless_busy l t = (if t \<in> set l then (False, l) else (True, t # l))"

text \<open>
  Constants under which the heap array does not grow and the window takes in the whole
  heap of the examples, so that the search ends in its fallback loop.
\<close>

definition wide_params :: queue_params where
  "wide_params =
     \<lparr>queue_sizeinit = 8, queue_sizegrow = 2, queue_incoming_size = 8,
      queue_search_window = 8\<rparr>"

text \<open>
  Three tasks of weights 9, NaN and 5, and the queue that holds the first of them.
\<close>

definition nan_tasks :: "int \<Rightarrow> float task" where
  "nan_tasks i = \<lparr>weight = (if i = 0 then Float 9 else if i = 1 then NaN else Float 5)\<rparr>"

definition nan_queue :: "float queue" where
  "nan_queue =
     \<lparr>lock = False, size_q = 2, count_q = 1, tasks = nan_tasks, tid = [0, 0],
      tid_incoming = [- 1, - 1, - 1, - 1], first_incoming = 1, last_incoming = 1,
      count_incoming = 0\<rparr>"

section \<open>The comparisons of floats\<close>

lemma float_less_Float [simp]: "Float x < Float y \<longleftrightarrow> x < y"
  by (simp add: less_float_def)

lemma float_le_Float [simp]: "Float x \<le> Float y \<longleftrightarrow> x \<le> y"
  by (simp add: less_eq_float_def)

lemma float_NaN [simp]:
  "\<not> NaN < a" "\<not> a < NaN" "\<not> NaN \<le> a" "\<not> a \<le> NaN" for a :: float
  by (simp_all add: less_float_def less_eq_float_def split: float.splits)

lemma float_less_irrefl [simp]: "\<not> a < a" for a :: float
  by (cases a) simp_all

lemma float_less_asym: "a < b \<Longrightarrow> \<not> b < a" for a b :: float
  by (cases a; cases b) simp_all

lemma float_less_imp_le: "a < b \<Longrightarrow> a \<le> b" for a b :: float
  by (cases a; cases b) simp_all

lemma float_less_not_le: "a < b \<Longrightarrow> \<not> b \<le> a" for a b :: float
  by (cases a; cases b) simp_all

lemma float_le_refl: "a \<noteq> NaN \<Longrightarrow> a \<le> a" for a :: float
  by (cases a) simp_all

text \<open>
  The test \<open>!(a < b)\<close> lets pass what is greater or equal, and every NaN.
\<close>

lemma float_not_less: "\<not> a < b \<longleftrightarrow> b \<le> a \<or> a = NaN \<or> b = NaN" for a b :: float
  by (cases a; cases b) auto

section \<open>Properties of the heap moves\<close>

lemma mset_take_swap:
  assumes "i < n" "j < n" "n \<le> length xs"
  shows "mset (take n (xs[i := xs ! j, j := xs ! i])) = mset (take n xs)"
proof -
  have "take n (xs[i := xs ! j, j := xs ! i]) = (take n xs)[i := take n xs ! j, j := take n xs ! i]"
    using assms by (simp add: take_update_swap)
  also have "mset \<dots> = mset (take n xs)"
    using assms by (intro mset_swap) simp_all
  finally show ?thesis .
qed

lemma bubble_up_loop_le: "snd (bubble_up_loop qtasks w qtid ind) \<le> ind"
proof (induction qtasks w qtid ind rule: bubble_up_loop.induct)
  case (1 qtasks w qtid ind)
  show ?case
  proof (cases "ind > 0 \<and> \<not> w < weight (qtasks (qtid ! ((ind - 1) div 2)))")
    case True
    let ?p = "(ind - 1) div 2"
    have "snd (bubble_up_loop qtasks w (qtid[ind := qtid ! ?p, ?p := qtid ! ind]) ?p) \<le> ?p"
      using True "1.IH" [of ?p] by simp
    moreover have "?p \<le> ind" by simp
    ultimately show ?thesis
      using True by (subst bubble_up_loop.simps) (simp add: Let_def)
  next
    case False
    then show ?thesis by (subst bubble_up_loop.simps) (auto simp: Let_def)
  qed
qed

lemma bubble_up_loop_mset:
  "ind < n \<Longrightarrow> n \<le> length qtid \<Longrightarrow>
   mset (take n (fst (bubble_up_loop qtasks w qtid ind))) = mset (take n qtid)"
proof (induction qtasks w qtid ind rule: bubble_up_loop.induct)
  case (1 qtasks w qtid ind)
  show ?case
  proof (cases "ind > 0 \<and> \<not> w < weight (qtasks (qtid ! ((ind - 1) div 2)))")
    case True
    let ?p = "(ind - 1) div 2"
    have p: "?p < n" using "1.prems" by simp
    have "mset (take n (fst (bubble_up_loop qtasks w (qtid[ind := qtid ! ?p, ?p := qtid ! ind]) ?p)))
          = mset (take n (qtid[ind := qtid ! ?p, ?p := qtid ! ind]))"
      using True "1.IH" [of ?p] p "1.prems" by simp
    also have "\<dots> = mset (take n qtid)"
      using mset_take_swap [of ind n ?p qtid] p "1.prems" by simp
    finally show ?thesis
      using True by (subst bubble_up_loop.simps) (simp add: Let_def)
  next
    case False
    then show ?thesis by (subst bubble_up_loop.simps) (auto simp: Let_def)
  qed
qed

lemma sift_down_child_range:
  "2 * ind + 1 < qcount \<Longrightarrow>
   ind < sift_down_child qtasks qtid qcount ind \<and> sift_down_child qtasks qtid qcount ind < qcount"
  by (simp add: sift_down_child_def Let_def)

lemma sift_down_loop_length [simp]:
  "length (fst (sift_down_loop qtasks w qtid qcount ind)) = length qtid"
proof (induction qtasks w qtid qcount ind rule: sift_down_loop.induct)
  case (1 qtasks w qtid qcount ind)
  show ?case
    using "1.IH" by (subst sift_down_loop.simps) (simp add: Let_def)
qed

lemma sift_down_loop_range:
  "ind < qcount \<Longrightarrow> snd (sift_down_loop qtasks w qtid qcount ind) < qcount"
proof (induction qtasks w qtid qcount ind rule: sift_down_loop.induct)
  case (1 qtasks w qtid qcount ind)
  show ?case
  proof (cases "2 * ind + 1 \<ge> qcount")
    case True
    then show ?thesis using "1.prems" by (subst sift_down_loop.simps) simp
  next
    case False
    then have "sift_down_child qtasks qtid qcount ind < qcount"
      using sift_down_child_range [of ind qcount qtasks qtid] by simp
    then show ?thesis
      using False "1.IH" "1.prems" by (subst sift_down_loop.simps) (simp add: Let_def)
  qed
qed

lemma sift_down_loop_mset:
  "ind < qcount \<Longrightarrow> qcount \<le> length qtid \<Longrightarrow>
   mset (take qcount (fst (sift_down_loop qtasks w qtid qcount ind))) = mset (take qcount qtid)"
proof (induction qtasks w qtid qcount ind rule: sift_down_loop.induct)
  case (1 qtasks w qtid qcount ind)
  show ?case
  proof (cases "2 * ind + 1 \<ge> qcount")
    case True
    then show ?thesis by (subst sift_down_loop.simps) simp
  next
    case False
    let ?c = "sift_down_child qtasks qtid qcount ind"
    have c: "?c < qcount"
      using False sift_down_child_range [of ind qcount qtasks qtid] by simp
    show ?thesis
    proof (cases "weight (qtasks (qtid ! ?c)) > w")
      case True
      have "mset (take qcount (fst (sift_down_loop qtasks w (qtid[?c := qtid ! ind, ind := qtid ! ?c]) qcount ?c)))
            = mset (take qcount (qtid[?c := qtid ! ind, ind := qtid ! ?c]))"
        using False True "1.IH" [of ?c] c "1.prems" by simp
      also have "\<dots> = mset (take qcount qtid)"
        using mset_take_swap [of ?c qcount ind qtid] c "1.prems" by simp
      finally show ?thesis
        using False True by (subst sift_down_loop.simps) (simp add: Let_def)
    next
      case nogt: False
      then show ?thesis using False by (subst sift_down_loop.simps) (simp add: Let_def)
    qed
  qed
qed

section \<open>The heap order\<close>

text \<open>
  The heap moves keep the heap order on weights that are numbers, where \<open>\<le>\<close> is a linear
  order.
\<close>

lemma swap_nth:
  assumes "i < length xs" "j < length xs" "i \<noteq> j"
  shows "xs[i := xs ! j, j := xs ! i] ! k = (if k = j then xs ! i else if k = i then xs ! j else xs ! k)"
  using assms by (simp add: nth_list_update)

lemma heap_on_grand: 
  assumes "heap_on T xs n" "i < n"
  shows "grand_ok T xs n i"
  unfolding grand_ok_def
proof (intro impI ballI)
  fix c assume i: "0 < i" and c: "c \<in> {1..<n}" and p: "(c - 1) div 2 = i"
  have "weight (T (xs ! c)) \<le> weight (T (xs ! i))"
    using assms(1) c p by (auto simp: heap_on_def)
  moreover have "weight (T (xs ! i)) \<le> weight (T (xs ! ((i - 1) div 2)))"
    using assms i by (auto simp: heap_on_def)
  ultimately show "weight (T (xs ! c)) \<le> weight (T (xs ! ((i - 1) div 2)))" by simp
qed

lemma heap_on_down_hole: "heap_on T xs n \<Longrightarrow> i < n \<Longrightarrow> down_hole T xs n i"
  using heap_on_grand [of T xs n i] by (simp add: down_hole_def heap_on_def)

lemma up_hole_imp_hole: "up_hole T xs n i \<Longrightarrow> hole_ok T xs n i"
  by (simp add: up_hole_def hole_ok_def)

lemma hole_swap_up:
  assumes i: "0 < i" "i < n" "n \<le> length xs"
    and H: "hole_ok T xs n i"
    and ge: "\<not> weight (T (xs ! i)) < weight (T (xs ! ((i - 1) div 2)))"
  shows "up_hole T (xs[i := xs ! ((i - 1) div 2), (i - 1) div 2 := xs ! i]) n ((i - 1) div 2)"
proof -
  define p where "p = (i - 1) div 2"
  define ys where "ys = xs[i := xs ! p, p := xs ! i]"
  let ?wt = "\<lambda>zs k. weight (T (zs ! k))"
  have pi: "p < i" using i by (simp add: p_def)
  have ip: "(i - 1) div 2 = p" by (simp add: p_def)
  have nth: "\<And>k. ys ! k = (if k = p then xs ! i else if k = i then xs ! p else xs ! k)"
    unfolding ys_def using swap_nth [of i xs p] pi i by simp
  have H1: "\<And>k. 1 \<le> k \<Longrightarrow> k < n \<Longrightarrow> k \<noteq> i \<Longrightarrow> (k - 1) div 2 \<noteq> i \<Longrightarrow>
              ?wt xs k \<le> ?wt xs ((k - 1) div 2)"
    using H by (simp add: hole_ok_def)
  have G: "\<And>c. 1 \<le> c \<Longrightarrow> c < n \<Longrightarrow> (c - 1) div 2 = i \<Longrightarrow> ?wt xs c \<le> ?wt xs p"
    using H i by (simp add: hole_ok_def grand_ok_def p_def)
  have ge': "?wt xs p \<le> ?wt xs i" using ge by (simp add: p_def)
  have part1: "?wt ys k \<le> ?wt ys ((k - 1) div 2)" if k: "1 \<le> k" "k < n" "k \<noteq> p" for k
  proof (cases "k = i")
    case True
    then show ?thesis using ge' pi ip by (simp add: nth)
  next
    case False
    consider "(k - 1) div 2 = i" | "(k - 1) div 2 = p" | "(k - 1) div 2 \<noteq> i" "(k - 1) div 2 \<noteq> p"
      by blast
    then show ?thesis
    proof cases
      case 1
      then show ?thesis using G [of k] k False pi by (simp add: nth)
    next
      case 2
      have "?wt xs k \<le> ?wt xs p" using H1 [of k] k False 2 pi by simp
      then show ?thesis using ge' k False 2 pi by (simp add: nth)
    next
      case 3
      then show ?thesis using H1 [of k] k False by (simp add: nth)
    qed
  qed
  have part2: "?wt ys c \<le> ?wt ys ((p - 1) div 2)"
    if c: "0 < p" "1 \<le> c" "c < n" "(c - 1) div 2 = p" for c
  proof -
    have pp: "(p - 1) div 2 < p" using c by linarith
    have cp: "p < c" using c by linarith
    have Hp: "?wt xs p \<le> ?wt xs ((p - 1) div 2)"
      using H1 [of p] c pi i pp by simp
    show ?thesis
    proof (cases "c = i")
      case True
      then show ?thesis using Hp pp pi by (simp add: nth)
    next
      case False
      have "?wt xs c \<le> ?wt xs p" using H1 [of c] c False pi by simp
      then show ?thesis using Hp pp pi cp False by (simp add: nth)
    qed
  qed
  have "up_hole T ys n p"
    unfolding up_hole_def grand_ok_def using part1 part2 by auto
  then show ?thesis by (simp add: ys_def p_def)
qed

lemma bubble_up_loop_heap:
  "i < n \<Longrightarrow> n \<le> length xs \<Longrightarrow> w = weight (T (xs ! i)) \<Longrightarrow> up_hole T xs n i \<Longrightarrow>
   heap_on T (fst (bubble_up_loop T w xs i)) n"
proof (induction T w xs i rule: bubble_up_loop.induct)
  case (1 T w xs i)
  let ?p = "(i - 1) div 2"
  show ?case
  proof (cases "i > 0 \<and> \<not> w < weight (T (xs ! ?p))")
    case True
    let ?ys = "xs[i := xs ! ?p, ?p := xs ! i]"
    have pi: "?p < i" using True by linarith
    have up: "up_hole T ?ys n ?p"
      using hole_swap_up [of i n xs T] True "1.prems" up_hole_imp_hole by simp
    have w: "w = weight (T (?ys ! ?p))"
      using "1.prems" pi by simp
    have "heap_on T (fst (bubble_up_loop T w ?ys ?p)) n"
      using "1.IH" [of ?p] True pi "1.prems" up w by simp
    then show ?thesis
      using True by (subst bubble_up_loop.simps) (simp add: Let_def)
  next
    case False
    have "heap_on T xs n"
      unfolding heap_on_def
    proof
      fix k assume k: "k \<in> {1..<n}"
      show "weight (T (xs ! k)) \<le> weight (T (xs ! ((k - 1) div 2)))"
      proof (cases "k = i")
        case True
        then show ?thesis using False k "1.prems"(3) by auto
      next
        case ne: False
        then show ?thesis using "1.prems"(4) k by (simp add: up_hole_def)
      qed
    qed
    then show ?thesis
      using False by (subst bubble_up_loop.simps) (auto simp: Let_def)
  qed
qed

lemma bubble_up_loop_down_hole:
  assumes "i < n" "n \<le> length xs" "w = weight (T (xs ! i))" "hole_ok T xs n i"
  shows "down_hole T (fst (bubble_up_loop T w xs i)) n (snd (bubble_up_loop T w xs i))"
proof (cases "i > 0 \<and> \<not> w < weight (T (xs ! ((i - 1) div 2)))")
  case True
  let ?p = "(i - 1) div 2"
  let ?ys = "xs[i := xs ! ?p, ?p := xs ! i]"
  have pi: "?p < i" using True by linarith
  have up: "up_hole T ?ys n ?p"
    using hole_swap_up [of i n xs T] True assms by simp
  have w: "w = weight (T (?ys ! ?p))"
    using assms pi by simp
  have h: "heap_on T (fst (bubble_up_loop T w ?ys ?p)) n"
    using bubble_up_loop_heap [of ?p n ?ys w T] pi assms up w by simp
  have "snd (bubble_up_loop T w ?ys ?p) < n"
    using bubble_up_loop_le [of T w ?ys ?p] pi assms by simp
  then have "down_hole T (fst (bubble_up_loop T w ?ys ?p)) n (snd (bubble_up_loop T w ?ys ?p))"
    using h heap_on_down_hole by simp
  then show ?thesis
    using True by (subst (1 2) bubble_up_loop.simps) (simp add: Let_def)
next
  case False
  have "down_hole T xs n i"
    unfolding down_hole_def
  proof
    show "\<forall>k\<in>{1..<n}. (k - 1) div 2 \<noteq> i \<longrightarrow>
            weight (T (xs ! k)) \<le> weight (T (xs ! ((k - 1) div 2)))"
    proof (intro ballI impI)
      fix k assume k: "k \<in> {1..<n}" "(k - 1) div 2 \<noteq> i"
      show "weight (T (xs ! k)) \<le> weight (T (xs ! ((k - 1) div 2)))"
      proof (cases "k = i")
        case True
        then show ?thesis using False k assms(3) by auto
      next
        case ne: False
        then show ?thesis using assms(4) k by (simp add: hole_ok_def)
      qed
    qed
    show "grand_ok T xs n i" using assms(4) by (simp add: hole_ok_def)
  qed
  then show ?thesis
    using False by (subst (1 2) bubble_up_loop.simps) (auto simp: Let_def)
qed

lemma child_cases: "1 \<le> k \<Longrightarrow> (k - 1) div 2 = i \<longleftrightarrow> k = 2 * i + 1 \<or> k = 2 * i + 2" for k i :: nat
  by presburger

lemma sift_down_child_max:
  fixes T :: "int \<Rightarrow> real task"
  assumes "2 * i + 1 < n" "1 \<le> k" "k < n" "(k - 1) div 2 = i"
  shows "weight (T (xs ! k)) \<le> weight (T (xs ! sift_down_child T xs n i))"
proof -
  have "k = 2 * i + 1 \<or> k = 2 * i + 2"
    using assms(2,4) child_cases [of k i] by simp
  then show ?thesis
    using assms(3) by (auto simp: sift_down_child_def Let_def)
qed

lemma sift_down_child_parent:
  "2 * i + 1 < n \<Longrightarrow> (sift_down_child T xs n i - 1) div 2 = i"
  by (simp add: sift_down_child_def Let_def)

lemma hole_swap_down:
  assumes i: "i < n" "n \<le> length xs" "2 * i + 1 < n"
    and H: "down_hole T xs n i"
    and gt: "weight (T (xs ! i)) < weight (T (xs ! sift_down_child T xs n i))"
  shows "down_hole T (xs[sift_down_child T xs n i := xs ! i, i := xs ! sift_down_child T xs n i]) n
           (sift_down_child T xs n i)"
proof -
  define c where "c = sift_down_child T xs n i"
  define ys where "ys = xs[c := xs ! i, i := xs ! c]"
  let ?wt = "\<lambda>zs k. weight (T (zs ! k))"
  have ic: "i < c" and cn: "c < n"
    using sift_down_child_range [of i n T xs] i by (simp_all add: c_def)
  have cp: "(c - 1) div 2 = i"
    using sift_down_child_parent [of i n T xs] i by (simp add: c_def)
  have nth: "\<And>k. ys ! k = (if k = i then xs ! c else if k = c then xs ! i else xs ! k)"
    unfolding ys_def using swap_nth [of c xs i] ic cn i by simp
  have H1: "\<And>k. 1 \<le> k \<Longrightarrow> k < n \<Longrightarrow> (k - 1) div 2 \<noteq> i \<Longrightarrow>
              ?wt xs k \<le> ?wt xs ((k - 1) div 2)"
    using H by (simp add: down_hole_def)
  have G: "\<And>d. 0 < i \<Longrightarrow> 1 \<le> d \<Longrightarrow> d < n \<Longrightarrow> (d - 1) div 2 = i \<Longrightarrow>
              ?wt xs d \<le> ?wt xs ((i - 1) div 2)"
    using H by (simp add: down_hole_def grand_ok_def)
  have M: "\<And>k. 1 \<le> k \<Longrightarrow> k < n \<Longrightarrow> (k - 1) div 2 = i \<Longrightarrow> ?wt xs k \<le> ?wt xs c"
    using sift_down_child_max [of i n _ T xs] i by (simp add: c_def)
  have gt': "?wt xs i \<le> ?wt xs c" using gt by (simp add: c_def)
  have part1: "?wt ys k \<le> ?wt ys ((k - 1) div 2)"
    if k: "1 \<le> k" "k < n" "(k - 1) div 2 \<noteq> c" for k
  proof -
    have kp: "(k - 1) div 2 < k" using k by linarith
    consider "k = i" | "k = c" | "k \<noteq> i" "k \<noteq> c" "(k - 1) div 2 = i"
      | "k \<noteq> i" "k \<noteq> c" "(k - 1) div 2 \<noteq> i"
      by blast
    then show ?thesis
    proof cases
      case 1
      have "(i - 1) div 2 < i" using 1 k by linarith
      then show ?thesis using G [of c] 1 k ic cn cp by (simp add: nth)
    next
      case 2
      then show ?thesis using gt' cp ic by (simp add: nth)
    next
      case 3
      then show ?thesis using M [of k] k ic by (simp add: nth)
    next
      case 4
      then show ?thesis using H1 [of k] k kp by (simp add: nth)
    qed
  qed
  have part2: "?wt ys d \<le> ?wt ys ((c - 1) div 2)"
    if d: "1 \<le> d" "d < n" "(d - 1) div 2 = c" for d
  proof -
    have "c < d" using d by linarith
    moreover have "?wt xs d \<le> ?wt xs c" using H1 [of d] d ic by simp
    ultimately show ?thesis using ic cp by (simp add: nth)
  qed
  have "down_hole T ys n c"
    unfolding down_hole_def grand_ok_def using part1 part2 by auto
  then show ?thesis by (simp add: ys_def c_def)
qed

lemma sift_down_loop_heap:
  "i < n \<Longrightarrow> n \<le> length xs \<Longrightarrow> w = weight (T (xs ! i)) \<Longrightarrow> down_hole T xs n i \<Longrightarrow>
   heap_on T (fst (sift_down_loop T w xs n i)) n"
proof (induction T w xs n i rule: sift_down_loop.induct)
  case (1 T w xs n i)
  let ?c = "sift_down_child T xs n i"
  have H1: "\<And>k. 1 \<le> k \<Longrightarrow> k < n \<Longrightarrow> (k - 1) div 2 \<noteq> i \<Longrightarrow>
              weight (T (xs ! k)) \<le> weight (T (xs ! ((k - 1) div 2)))"
    using "1.prems"(4) by (simp add: down_hole_def)
  show ?case
  proof (cases "2 * i + 1 \<ge> n")
    case True
    have "heap_on T xs n"
      unfolding heap_on_def
    proof
      fix k assume k: "k \<in> {1..<n}"
      then have "(k - 1) div 2 \<noteq> i" using True by auto
      then show "weight (T (xs ! k)) \<le> weight (T (xs ! ((k - 1) div 2)))"
        using H1 [of k] k by simp
    qed
    then show ?thesis using True by (subst sift_down_loop.simps) simp
  next
    case False
    then have ch: "2 * i + 1 < n" by simp
    have ic: "i < ?c" and cn: "?c < n"
      using sift_down_child_range [of i n T xs] ch by simp_all
    show ?thesis
    proof (cases "weight (T (xs ! ?c)) > w")
      case True
      let ?ys = "xs[?c := xs ! i, i := xs ! ?c]"
      have dh: "down_hole T ?ys n ?c"
        using hole_swap_down [of i n xs T] "1.prems" ch True by simp
      have w: "w = weight (T (?ys ! ?c))"
        using "1.prems" ic cn by simp
      have "heap_on T (fst (sift_down_loop T w ?ys n ?c)) n"
        using "1.IH" [of ?c] False True cn "1.prems" dh w by simp
      then show ?thesis
        using False True by (subst sift_down_loop.simps) (simp add: Let_def)
    next
      case nogt: False
      have "heap_on T xs n"
        unfolding heap_on_def
      proof
        fix k assume k: "k \<in> {1..<n}"
        show "weight (T (xs ! k)) \<le> weight (T (xs ! ((k - 1) div 2)))"
        proof (cases "(k - 1) div 2 = i")
          case True
          have "weight (T (xs ! k)) \<le> weight (T (xs ! ?c))"
            using sift_down_child_max [of i n k T xs] ch k True by simp
          then show ?thesis using nogt True "1.prems"(3) by simp
        next
          case ne: False
          then show ?thesis using H1 [of k] k by simp
        qed
      qed
      then show ?thesis
        using False nogt by (subst sift_down_loop.simps) (simp add: Let_def)
    qed
  qed
qed

text \<open>Taking a heap entry out keeps the heap order.\<close>

lemma gettask_remove_heap:
  fixes q :: "real queue"
  assumes h: "heap_ok q" and ind: "ind < count_q q" and len: "count_q q \<le> length (tid q)"
  shows "heap_ok (gettask_remove q ind)"
proof (cases "ind < count_q q - 1")
  case False
  then have "gettask_remove q ind = q\<lparr>count_q := count_q q - 1\<rparr>"
    by (simp add: gettask_remove_def Let_def)
  then show ?thesis using h by (auto simp: heap_ok_def heap_on_def)
next
  case True
  define n where "n = count_q q - 1"
  define T where "T = tasks q"
  define xs where "xs = (tid q)[ind := tid q ! n]"
  have n: "ind < n" "n < length (tid q)" "n \<le> length xs"
    using True ind len by (simp_all add: n_def xs_def)
  have H: "\<And>k. 1 \<le> k \<Longrightarrow> k \<le> n \<Longrightarrow>
             weight (T (tid q ! k)) \<le> weight (T (tid q ! ((k - 1) div 2)))"
    using h ind by (simp add: heap_ok_def heap_on_def n_def T_def)
  have hole: "hole_ok T xs n ind"
    unfolding hole_ok_def grand_ok_def
  proof (intro conjI ballI impI)
    fix k assume k: "k \<in> {1..<n}" "k \<noteq> ind \<and> (k - 1) div 2 \<noteq> ind"
    then show "weight (T (xs ! k)) \<le> weight (T (xs ! ((k - 1) div 2)))"
      using H [of k] by (simp add: xs_def)
  next
    fix c assume c: "0 < ind" "c \<in> {1..<n}" "(c - 1) div 2 = ind"
    have ic: "ind < c" using c by auto
    have pi: "(ind - 1) div 2 < ind" using c by linarith
    have "weight (T (tid q ! c)) \<le> weight (T (tid q ! ind))"
      using H [of c] c by simp
    moreover have "weight (T (tid q ! ind)) \<le> weight (T (tid q ! ((ind - 1) div 2)))"
      using H [of ind] c n by simp
    ultimately show "weight (T (xs ! c)) \<le> weight (T (xs ! ((ind - 1) div 2)))"
      using ic pi by (simp add: xs_def)
  qed
  define w where "w = weight (T (xs ! ind))"
  define r where "r = bubble_up_loop T w xs ind"
  have dh: "down_hole T (fst r) n (snd r)"
    unfolding r_def using bubble_up_loop_down_hole [of ind n xs w T] n hole by (simp add: w_def)
  have sn: "snd r < n"
    using bubble_up_loop_le [of T w xs ind] n by (simp add: r_def)
  have lr: "n \<le> length (fst r)" using n by (simp add: r_def)
  have "heap_on T (fst (sift_down_loop T (weight (T (fst r ! snd r))) (fst r) n (snd r))) n"
    using sift_down_loop_heap [of "snd r" n "fst r" _ T] sn lr dh by simp
  moreover have "gettask_remove q ind =
      q\<lparr>count_q := n, tid := fst (sift_down_loop T (weight (T (fst r ! snd r))) (fst r) n (snd r))\<rparr>"
    unfolding r_def w_def xs_def n_def T_def using True
    by (simp add: gettask_remove_def Let_def queue_bubble_up_def queue_sift_down_def
        case_prod_beta)
  ultimately show ?thesis
    by (simp add: heap_ok_def T_def)
qed

section \<open>The drain keeps the queue well formed\<close>

lemma get_incoming_round_fields:
  assumes "get_incoming_round P malloc_ok q ind = Inr q'"
  shows "count_q q' = count_q q + 1"
    and "tasks q' = tasks q"
    and "lock q' = lock q"
    and "first_incoming q' = first_incoming q + 1"
    and "last_incoming q' = last_incoming q"
    and "count_incoming q' = count_incoming q - 1"
    and "size_q q' = (if count_q q = size_q q then size_q q * queue_sizegrow P else size_q q)"
    and "tid q' = fst (bubble_up_loop (tasks q) (weight (tasks q (round_tid P q ind ! count_q q)))
                        (round_tid P q ind) (count_q q))"
  using assms
  by (auto simp: get_incoming_round_def queue_grow_def Let_def queue_bubble_up_def
      case_prod_beta round_tid_def split: if_splits)

lemma round_tid_props:
  assumes "2 \<le> queue_sizegrow P" "queue_wf q"
  shows "count_q q < length (round_tid P q ind)"
    and "length (round_tid P q ind) =
           (if count_q q = size_q q then size_q q * queue_sizegrow P else size_q q)"
    and "take (count_q q) (round_tid P q ind) = take (count_q q) (tid q)"
    and "round_tid P q ind ! count_q q = tid_incoming q ! ind"
proof -
  have L: "length (tid q) = size_q q" "count_q q \<le> size_q q" "0 < size_q q"
    using assms(2) by (auto simp: queue_wf_def)
  have big: "size_q q < size_q q * queue_sizegrow P"
    using assms(1) L(3) by simp
  show l: "length (round_tid P q ind) =
           (if count_q q = size_q q then size_q q * queue_sizegrow P else size_q q)"
    using L big by (simp add: round_tid_def)
  show c: "count_q q < length (round_tid P q ind)"
    using l L big by (simp split: if_splits)
  show "take (count_q q) (round_tid P q ind) = take (count_q q) (tid q)"
    using L by (simp add: round_tid_def)
  show "round_tid P q ind ! count_q q = tid_incoming q ! ind"
    using c by (simp add: round_tid_def)
qed

lemma heap_on_take:
  "n \<le> length xs \<Longrightarrow> n \<le> length ys \<Longrightarrow> take n xs = take n ys \<Longrightarrow>
   heap_on T xs n \<Longrightarrow> heap_on T ys n"
  for T :: "int \<Rightarrow> real task"
proof -
  assume a: "n \<le> length xs" "n \<le> length ys" "take n xs = take n ys" "heap_on T xs n"
  have eq: "\<And>k. k < n \<Longrightarrow> ys ! k = xs ! k"
    using a(3) by (metis nth_take)
  show ?thesis
    unfolding heap_on_def
  proof
    fix k assume k: "k \<in> {1..<n}"
    then have "(k - 1) div 2 < n" by auto
    then show "weight (T (ys ! k)) \<le> weight (T (ys ! ((k - 1) div 2)))"
      using a(4) k eq [of k] eq [of "(k - 1) div 2"] by (simp add: heap_on_def)
  qed
qed

lemma get_incoming_round_ok:
  fixes q :: "real queue"
  assumes g: "2 \<le> queue_sizegrow P" and wf: "queue_wf q" and h: "heap_ok q"
    and r: "get_incoming_round P malloc_ok q ind = Inr q'"
  shows "heap_ok q'" and "queue_wf q'"
    and "mset (take (count_q q') (tid q')) =
           add_mset (tid_incoming q ! ind) (mset (take (count_q q) (tid q)))"
proof -
  define n where "n = count_q q"
  define T where "T = tasks q"
  define xs where "xs = round_tid P q ind"
  define w where "w = weight (T (xs ! n))"
  note f = get_incoming_round_fields [OF r]
  note p = round_tid_props [OF g wf, of ind]
  have tid': "tid q' = fst (bubble_up_loop T w xs n)"
    using f(8) by (simp add: n_def T_def xs_def w_def)
  have len: "Suc n \<le> length xs" using p(1) by (simp add: xs_def n_def)
  have h0: "heap_on T xs n"
    using heap_on_take [of n "tid q" xs T] h wf p(1,3)
    by (simp add: heap_ok_def n_def T_def xs_def queue_wf_def)
  have up: "up_hole T xs (Suc n) n"
    unfolding up_hole_def grand_ok_def
  proof (intro conjI ballI impI)
    fix k assume "k \<in> {1..<Suc n}" "k \<noteq> n"
    then show "weight (T (xs ! k)) \<le> weight (T (xs ! ((k - 1) div 2)))"
      using h0 by (simp add: heap_on_def)
  next
    fix c assume "0 < n" "c \<in> {1..<Suc n}" "(c - 1) div 2 = n"
    then have False by auto
    then show "weight (T (xs ! c)) \<le> weight (T (xs ! ((n - 1) div 2)))" ..
  qed
  have "heap_on T (fst (bubble_up_loop T w xs n)) (Suc n)"
    using bubble_up_loop_heap [of n "Suc n" xs w T] len up by (simp add: w_def)
  then show "heap_ok q'"
    using tid' f(1,2) by (simp add: heap_ok_def n_def T_def)
  show "queue_wf q'"
    using tid' f(1,7) p(1,2) wf by (auto simp: queue_wf_def xs_def n_def)
  have "mset (take (Suc n) (fst (bubble_up_loop T w xs n))) = mset (take (Suc n) xs)"
    using bubble_up_loop_mset [of n "Suc n" xs T w] len by simp
  also have "take (Suc n) xs = take n xs @ [xs ! n]"
    using len by (simp add: take_Suc_conv_app_nth)
  also have "mset \<dots> = add_mset (tid_incoming q ! ind) (mset (take n (tid q)))"
    using p(3,4) by (simp add: xs_def n_def)
  finally show "mset (take (count_q q') (tid q')) =
           add_mset (tid_incoming q ! ind) (mset (take (count_q q) (tid q)))"
    using tid' f(1) by (simp add: n_def)
qed

lemma queue_get_incoming_ok:
  "2 \<le> queue_sizegrow P \<Longrightarrow> queue_wf q \<Longrightarrow> heap_ok q \<Longrightarrow>
   queue_get_incoming P malloc_ok q = Inr q' \<Longrightarrow>
   heap_ok q' \<and> queue_wf q' \<and> tasks q' = tasks q \<and> lock q' = lock q"
  for q :: "real queue"
proof (induction P malloc_ok q rule: queue_get_incoming.induct)
  case (1 P malloc_ok q)
  let ?ind = "unat (first_incoming q) mod queue_incoming_size P"
  from "1.prems"(4) have S: "queue_incoming_size P \<noteq> 0" and b: "?ind < length (tid_incoming q)"
    by (subst (asm) queue_get_incoming.simps, simp add: Let_def split: if_splits)+
  show ?case
  proof (cases "tid_incoming q ! ?ind < 0")
    case True
    then have "q' = q"
      using "1.prems"(4) S b by (subst (asm) queue_get_incoming.simps) (simp add: Let_def)
    then show ?thesis using "1.prems" by simp
  next
    case False
    then obtain q1 where r: "get_incoming_round P malloc_ok q ?ind = Inr q1"
      and rest: "queue_get_incoming P malloc_ok q1 = Inr q'"
      using "1.prems"(4) S b
      by (subst (asm) queue_get_incoming.simps) (simp add: Let_def split: sum.splits)
    have "heap_ok q1" "queue_wf q1"
      using get_incoming_round_ok [OF "1.prems"(1,2,3) r] by simp_all
    then have "heap_ok q' \<and> queue_wf q' \<and> tasks q' = tasks q1 \<and> lock q' = lock q1"
      using "1.IH" [of ?ind q1] S b False r rest "1.prems"(1) by simp
    then show ?thesis
      using get_incoming_round_fields(2,3) [OF r] by simp
  qed
qed

section \<open>The search window\<close>

lemma win_ok_sel:
  "win_ok overlap qtid n window window_count \<Longrightarrow> m < window_count \<Longrightarrow>
   sel_ok qtid n (w_tid (window ! m)) (w_ind (window ! m))"
  by (fastforce simp: win_ok_def sel_ok_def)

lemma gettask_ind_max_ok:
  "ind_max < i \<Longrightarrow> i \<le> window_count \<Longrightarrow> window_count \<le> length window \<Longrightarrow>
   \<exists>m < window_count. gettask_ind_max window window_count i ind_max = Inr m"
proof (induction window window_count i ind_max rule: gettask_ind_max.induct)
  case (1 window window_count i ind_max)
  show ?case
  proof (cases "i < window_count")
    case True
    let ?m = "if w_score (window ! i) > w_score (window ! ind_max) then i else ind_max"
    have "\<exists>m < window_count. gettask_ind_max window window_count (i + 1) ?m = Inr m"
      using "1.IH" True "1.prems" by simp
    then show ?thesis
      using True "1.prems" by (subst gettask_ind_max.simps) simp
  next
    case False
    then show ?thesis
      using "1.prems" by (subst gettask_ind_max.simps) simp
  qed
qed

lemma gettask_scan_ok:
  "0 < search_window \<Longrightarrow> length window = search_window \<Longrightarrow>
   window_count = min k search_window \<Longrightarrow> k \<le> old_qcount \<Longrightarrow>
   win_ok overlap qtid old_qcount window window_count \<Longrightarrow>
   \<exists>window' window_count' tid1 ind1 l1.
     gettask_scan search_window overlap task_lock qtid old_qcount k window window_count l =
       Inr (window', window_count', tid1, ind1, l1)
     \<and> length window' = search_window
     \<and> win_ok overlap qtid old_qcount window' window_count'
     \<and> sel_ok qtid old_qcount tid1 ind1
     \<and> (ind1 < 0 \<longrightarrow> tid1 < 0)"
proof (induction search_window overlap task_lock qtid old_qcount k window window_count l
    rule: gettask_scan.induct)
  case (1 search_window overlap task_lock qtid old_qcount k window window_count l)
  let ?e = "\<lparr>w_ind = int k, w_tid = qtid ! k, w_score = overlap (qtid ! k)\<rparr>"
  show ?case
  proof (cases "k < old_qcount")
    case False
    then show ?thesis
      using "1.prems" by (subst gettask_scan.simps) (simp add: sel_ok_def)
  next
    case kn: True
    show ?thesis
    proof (cases "k < search_window")
      case True
      have wc: "window_count = k" "window_count < length window"
        using True "1.prems" by simp_all
      have ok: "win_ok overlap qtid old_qcount (window[window_count := ?e]) (window_count + 1)"
        using "1.prems"(5) wc kn
        by (auto simp: win_ok_def nth_list_update less_Suc_eq)
      show ?thesis
        using "1.IH"(1) [OF kn True wc(2)] "1.prems"(1,2) wc kn True ok
        by (subst gettask_scan.simps) simp
    next
      case False
      have wc: "window_count = search_window" "0 < window_count" "window_count \<le> length window"
        using False "1.prems" by simp_all
      obtain m where m: "m < window_count" "gettask_ind_max window window_count 1 0 = Inr m"
        using gettask_ind_max_ok [of 0 1 window_count window] wc by auto
      have ml: "m < length window" using m wc by simp
      show ?thesis
      proof (cases "fst (task_lock l (w_tid (window ! m)))")
        case True
        have "sel_ok qtid old_qcount (w_tid (window ! m)) (w_ind (window ! m))"
          using win_ok_sel [OF "1.prems"(5) m(1)] .
        moreover have "\<not> w_ind (window ! m) < 0"
          using "1.prems"(5) m(1) by (fastforce simp: win_ok_def)
        ultimately show ?thesis
          using kn False m ml True "1.prems"(2,5)
          by (subst gettask_scan.simps) simp
      next
        case nolock: False
        have ok: "win_ok overlap qtid old_qcount (window[m := ?e]) window_count"
          using "1.prems"(5) kn ml
          by (auto simp: win_ok_def nth_list_update)
        show ?thesis
          using "1.IH"(2) [OF kn False m(2) ml nolock] "1.prems"(1,2) wc kn False ok m ml nolock
          by (subst gettask_scan.simps) simp
      qed
    qed
  qed
qed

lemma gettask_fallback_ok:
  "win_ok overlap qtid n window window_count \<Longrightarrow> sel_ok qtid n tid0 ind0 \<Longrightarrow>
   \<exists>tid1 ind1 l1.
     gettask_fallback task_lock window window_count tid0 ind0 l = Inr (tid1, ind1, l1)
     \<and> sel_ok qtid n tid1 ind1"
proof (induction task_lock window window_count tid0 ind0 l rule: gettask_fallback.induct)
  case (1 task_lock window window_count tid0 ind0 l)
  show ?case
  proof (cases "window_count > 0")
    case False
    then show ?thesis
      using "1.prems" by (subst gettask_fallback.simps) simp
  next
    case True
    have wl: "window_count \<le> length window"
      using "1.prems"(1) by (simp add: win_ok_def)
    obtain m where m: "m < window_count" "gettask_ind_max window window_count 1 0 = Inr m"
      using gettask_ind_max_ok [of 0 1 window_count window] True wl by auto
    have ml: "m < length window" using m wl by simp
    show ?thesis
    proof (cases "fst (task_lock l (w_tid (window ! m)))")
      case lock: True
      show ?thesis
        using win_ok_sel [OF "1.prems"(1) m(1)] True m ml lock
        by (subst gettask_fallback.simps) simp
    next
      case nolock: False
      have l1: "window_count - 1 < length window" using True wl by simp
      have ok: "win_ok overlap qtid n (window[m := window ! (window_count - 1)]) (window_count - 1)"
        using "1.prems"(1) True m(1) ml
        by (auto simp: win_ok_def nth_list_update)
      show ?thesis
        using "1.IH" [OF True m(2) ml nolock l1 ok "1.prems"(2)] True m ml nolock l1
        by (subst gettask_fallback.simps) simp
    qed
  qed
qed

lemma gettask_search_ok:
  assumes "0 < search_window"
  shows "\<exists>tid1 ind1 l1.
     gettask_search search_window overlap task_lock qtid old_qcount l = Inr (tid1, ind1, l1)
     \<and> sel_ok qtid old_qcount tid1 ind1"
proof -
  let ?w0 = "replicate search_window \<lparr>w_ind = 0, w_tid = 0, w_score = Float 0\<rparr>"
  have "win_ok overlap qtid old_qcount ?w0 0" by (simp add: win_ok_def)
  then obtain window wc tid1 ind1 l1 where
    s: "gettask_scan search_window overlap task_lock qtid old_qcount 0 ?w0 0 l =
          Inr (window, wc, tid1, ind1, l1)"
    and w: "win_ok overlap qtid old_qcount window wc" and sel: "sel_ok qtid old_qcount tid1 ind1"
    using gettask_scan_ok [of search_window ?w0 0 0 old_qcount overlap qtid task_lock l] assms
    by auto
  show ?thesis
  proof (cases "tid1 < 0")
    case True
    then show ?thesis
      using gettask_fallback_ok [OF w sel, of task_lock l1] s
      by (auto simp: gettask_search_def)
  next
    case False
    then show ?thesis using s sel by (simp add: gettask_search_def)
  qed
qed

section \<open>The heap order is kept by the queue operations\<close>

lemma gettask_remove_fields:
  "count_q (gettask_remove q ind) = count_q q - 1"
  "size_q (gettask_remove q ind) = size_q q"
  "length (tid (gettask_remove q ind)) = length (tid q)"
  "tasks (gettask_remove q ind) = tasks q"
  "lock (gettask_remove q ind) = lock q"
  "tid_incoming (gettask_remove q ind) = tid_incoming q"
  "first_incoming (gettask_remove q ind) = first_incoming q"
  "last_incoming (gettask_remove q ind) = last_incoming q"
  "count_incoming (gettask_remove q ind) = count_incoming q"
  by (simp_all add: gettask_remove_def Let_def case_prod_beta queue_bubble_up_def
      queue_sift_down_def)

lemma heap_ok_lock [simp]: "heap_ok (q\<lparr>lock := b\<rparr>) = heap_ok q"
  by (simp add: heap_ok_def)

lemma queue_wf_lock [simp]: "queue_wf (q\<lparr>lock := b\<rparr>) = queue_wf q"
  by (simp add: queue_wf_def)

lemma heap_ok_incoming [simp]:
  "heap_ok (q\<lparr>tid_incoming := xs\<rparr>) = heap_ok q"
  "heap_ok (q\<lparr>last_incoming := a\<rparr>) = heap_ok q"
  "heap_ok (q\<lparr>count_incoming := a\<rparr>) = heap_ok q"
  by (simp_all add: heap_ok_def)

lemma queue_wf_incoming [simp]:
  "queue_wf (q\<lparr>tid_incoming := xs\<rparr>) = queue_wf q"
  "queue_wf (q\<lparr>last_incoming := a\<rparr>) = queue_wf q"
  "queue_wf (q\<lparr>count_incoming := a\<rparr>) = queue_wf q"
  by (simp_all add: queue_wf_def)

lemma gettask_locked_ok:
  fixes q :: "real queue"
  assumes g: "2 \<le> queue_sizegrow P" and W: "0 < queue_search_window P"
    and wf: "queue_wf q" and h: "heap_ok q"
    and r: "gettask_locked P malloc_ok task_overlap task_lock q l prev = Inr (res, q', l')"
  shows "heap_ok q' \<and> queue_wf q' \<and> tasks q' = tasks q"
proof -
  obtain q1 where d: "queue_get_incoming P malloc_ok q = Inr q1"
    using r by (auto simp: gettask_locked_def split: sum.splits)
  have q1: "heap_ok q1" "queue_wf q1" "tasks q1 = tasks q"
    using queue_get_incoming_ok [OF g wf h d] by simp_all
  show ?thesis
  proof (cases "count_q q1 = 0")
    case True
    then have "q' = q1\<lparr>lock := lock_unlock_blind (lock q1)\<rparr>"
      using r d by (simp add: gettask_locked_def)
    then show ?thesis using q1 by simp
  next
    case False
    obtain tid1 ind1 l1 where
      s: "gettask_search (queue_search_window P) (task_overlap prev) task_lock (tid q1)
            (count_q q1) l = Inr (tid1, ind1, l1)"
      and sel: "sel_ok (tid q1) (count_q q1) tid1 ind1"
      using gettask_search_ok [OF W, of "task_overlap prev" task_lock "tid q1" "count_q q1" l]
      by blast
    define q2 where "q2 = (if ind1 \<ge> 0 then gettask_remove q1 (nat ind1) else q1)"
    have q': "q' = q2\<lparr>lock := snd (lock_unlock (lock q2))\<rparr>"
      using r d s False
      by (auto simp: gettask_locked_def q2_def Let_def split: if_splits)
    have "heap_ok q2 \<and> queue_wf q2 \<and> tasks q2 = tasks q1"
    proof (cases "ind1 \<ge> 0")
      case True
      then have i: "nat ind1 < count_q q1"
        using sel by (auto simp: sel_ok_def)
      have l: "count_q q1 \<le> length (tid q1)"
        using q1(2) by (simp add: queue_wf_def)
      have "heap_ok (gettask_remove q1 (nat ind1))"
        using gettask_remove_heap [OF q1(1) i l] .
      moreover have "queue_wf (gettask_remove q1 (nat ind1))"
        using q1(2) by (auto simp: queue_wf_def gettask_remove_fields)
      ultimately show ?thesis
        using True by (simp add: q2_def gettask_remove_fields)
    next
      case False
      then show ?thesis using q1 by (simp add: q2_def)
    qed
    then show ?thesis using q' q1 by simp
  qed
qed

lemma queue_insert_spin_ok:
  fixes q :: "real queue"
  assumes r: "queue_insert_spin P malloc_ok ind offset q = Some (Inr q')"
    and g: "2 \<le> queue_sizegrow P" and wf: "queue_wf q" and h: "heap_ok q"
  shows "heap_ok q' \<and> queue_wf q' \<and> tasks q' = tasks q"
proof -
  define Q :: "(((queue_params \<times> (nat \<Rightarrow> bool)) \<times> nat) \<times> int) \<times> real queue \<Rightarrow>
      error + real queue \<Rightarrow> bool"
    where "Q = (\<lambda>x y. 2 \<le> queue_sizegrow (fst (fst (fst (fst x)))) \<longrightarrow>
                  queue_wf (snd x) \<longrightarrow> heap_ok (snd x) \<longrightarrow>
                  (\<forall>q'. y = Inr q' \<longrightarrow> heap_ok q' \<and> queue_wf q' \<and> tasks q' = tasks (snd x)))"
  have "Q ((((P, malloc_ok), ind), offset), q) (Inr q')"
  proof (rule queue_insert_spin.raw_induct [where Pa = Q, OF _ r], goal_cases)
    case (1 f P malloc_ok ind offset q y)
    show ?case
      unfolding Q_def fst_conv snd_conv
    proof (intro impI allI)
      fix q' assume g: "2 \<le> queue_sizegrow P" and wf: "queue_wf q" and h: "heap_ok q"
        and y: "y = Inr q'"
      let ?q0 = "q\<lparr>lock := snd (lock_trylock (lock q))\<rparr>"
      note IH = "1"(1) [unfolded Q_def fst_conv snd_conv, rule_format]
      consider (store) "q' = q\<lparr>tid_incoming := (tid_incoming q)[ind := offset]\<rparr>"
        | (spin) "f P malloc_ok ind offset q = Some y"
        | (drain) q1 where "queue_get_incoming P malloc_ok ?q0 = Inr q1"
            "f P malloc_ok ind offset (q1\<lparr>lock := snd (lock_unlock (lock q1))\<rparr>) = Some y"
      proof (cases "tid_incoming q ! ind = - 1")
        case True
        then have "q' = q\<lparr>tid_incoming := (tid_incoming q)[ind := offset]\<rparr>"
          using "1"(2) y by (simp split: if_splits)
        then show ?thesis by (rule that(1))
      next
        case False
        show ?thesis
        proof (cases "fst (lock_trylock (lock q)) = 0")
          case nolock: False
          then have "f P malloc_ok ind offset q = Some y"
            using "1"(2) y False by (simp split: if_splits)
          then show ?thesis by (rule that(2))
        next
          case True
          show ?thesis
          proof (cases "queue_get_incoming P malloc_ok ?q0")
            case (Inl e)
            then have False using "1"(2) y False True by (simp split: if_splits)
            then show ?thesis ..
          next
            case (Inr q1)
            then have "f P malloc_ok ind offset (q1\<lparr>lock := snd (lock_unlock (lock q1))\<rparr>) = Some y"
              using "1"(2) y False True by (simp split: if_splits)
            then show ?thesis using Inr by (rule that(3) [rotated])
          qed
        qed
      qed
      then show "heap_ok q' \<and> queue_wf q' \<and> tasks q' = tasks q"
      proof cases
        case store
        then show ?thesis using wf h by simp
      next
        case spin
        then show ?thesis using IH [OF spin g wf h y] by simp
      next
        case drain
        have q1: "heap_ok q1 \<and> queue_wf q1 \<and> tasks q1 = tasks ?q0 \<and> lock q1 = lock ?q0"
          using queue_get_incoming_ok [OF g _ _ drain(1)] wf h by simp
        show ?thesis
          using IH [OF drain(2) g _ _ y] q1 by simp
      qed
    qed
  qed
  then show ?thesis using g wf h by (simp add: Q_def)
qed

lemma queue_insert_ok:
  fixes q :: "real queue"
  assumes g: "2 \<le> queue_sizegrow P" and wf: "queue_wf q" and h: "heap_ok q"
    and r: "queue_insert P malloc_ok q t = Some (Inr q')"
  shows "heap_ok q' \<and> queue_wf q' \<and> tasks q' = tasks q"
proof -
  let ?q1 = "q\<lparr>last_incoming := last_incoming q + 1\<rparr>"
  obtain q2 where s: "queue_insert_spin P malloc_ok
      (unat (last_incoming q) mod queue_incoming_size P) t ?q1 = Some (Inr q2)"
    and q': "q' = q2\<lparr>count_incoming := count_incoming q2 + 1\<rparr>"
    using r by (auto simp: queue_insert_def Let_def split: if_splits option.splits sum.splits)
  have "heap_ok q2 \<and> queue_wf q2 \<and> tasks q2 = tasks ?q1"
    using queue_insert_spin_ok [OF s g] wf h by simp
  then show ?thesis using q' by simp
qed

section \<open>What the heap moves and the search do\<close>

lemma bubble_up_loop_entry:
  "i < length xs \<Longrightarrow>
   fst (bubble_up_loop T w xs i) ! snd (bubble_up_loop T w xs i) = xs ! i"
proof (induction T w xs i rule: bubble_up_loop.induct)
  case (1 T w xs i)
  let ?p = "(i - 1) div 2"
  show ?case
  proof (cases "i > 0 \<and> \<not> w < weight (T (xs ! ?p))")
    case True
    let ?ys = "xs[i := xs ! ?p, ?p := xs ! i]"
    have pi: "?p < i" using True by linarith
    have "fst (bubble_up_loop T w ?ys ?p) ! snd (bubble_up_loop T w ?ys ?p) = ?ys ! ?p"
      using "1.IH" [of ?p] True pi "1.prems" by simp
    also have "\<dots> = xs ! i" using pi "1.prems" by simp
    finally show ?thesis
      using True by (subst (1 2) bubble_up_loop.simps) (simp add: Let_def)
  next
    case False
    then show ?thesis by (subst (1 2) bubble_up_loop.simps) (auto simp: Let_def)
  qed
qed

lemma bubble_up_loop_stop:
  "snd (bubble_up_loop T w xs i) = 0 \<or>
   w < weight (T (fst (bubble_up_loop T w xs i) ! ((snd (bubble_up_loop T w xs i) - 1) div 2)))"
proof (induction T w xs i rule: bubble_up_loop.induct)
  case (1 T w xs i)
  let ?p = "(i - 1) div 2"
  show ?case
  proof (cases "i > 0 \<and> \<not> w < weight (T (xs ! ?p))")
    case True
    let ?r = "bubble_up_loop T w (xs[i := xs ! ?p, ?p := xs ! i]) ?p"
    have "snd ?r = 0 \<or> w < weight (T (fst ?r ! ((snd ?r - 1) div 2)))"
      using "1.IH" [of ?p] True by simp
    moreover have "bubble_up_loop T w xs i = ?r"
      using True by (subst bubble_up_loop.simps) (simp add: Let_def)
    ultimately show ?thesis by simp
  next
    case False
    then have "bubble_up_loop T w xs i = (xs, i)"
      by (subst bubble_up_loop.simps) (auto simp: Let_def)
    then show ?thesis using False by auto
  qed
qed

text \<open>
  C5, as the code has it. \<open>queue_bubble_up\<close> swaps the entry at \<open>ind\<close> with its parent and
  goes on from the parent as long as the entry is not the root and its weight is not less
  than the weight of its parent; otherwise it changes nothing and returns \<open>ind\<close>. The
  weight is not less when it is greater or equal (an equal weight moves up), and when one
  of the two weights is NaN. The index it returns is where the entry has come to rest:
  the entry is there, and it is the root or weighs less than its parent.
\<close>

theorem queue_bubble_up_moves_up:
  fixes q :: "float queue"
  assumes "ind < length (tid q)"
  shows "queue_bubble_up q ind =
           (if 0 < ind \<and>
               \<not> weight (tasks q (tid q ! ind)) < weight (tasks q (tid q ! ((ind - 1) div 2)))
            then queue_bubble_up
                   (q\<lparr>tid := (tid q)[ind := tid q ! ((ind - 1) div 2),
                                      (ind - 1) div 2 := tid q ! ind]\<rparr>)
                   ((ind - 1) div 2)
            else (q, ind))
       \<and> (\<not> weight (tasks q (tid q ! ind)) < weight (tasks q (tid q ! ((ind - 1) div 2)))
            \<longleftrightarrow>
              weight (tasks q (tid q ! ((ind - 1) div 2))) \<le> weight (tasks q (tid q ! ind))
              \<or> weight (tasks q (tid q ! ind)) = NaN
              \<or> weight (tasks q (tid q ! ((ind - 1) div 2))) = NaN)
       \<and> tid (fst (queue_bubble_up q ind)) ! snd (queue_bubble_up q ind) = tid q ! ind
       \<and> (snd (queue_bubble_up q ind) = 0 \<or>
          weight (tasks q (tid q ! ind)) <
            weight (tasks q (tid (fst (queue_bubble_up q ind)) !
                      ((snd (queue_bubble_up q ind) - 1) div 2))))"
proof (intro conjI)
  let ?p = "(ind - 1) div 2"
  let ?w = "weight (tasks q (tid q ! ind))"
  show "queue_bubble_up q ind =
           (if 0 < ind \<and> \<not> ?w < weight (tasks q (tid q ! ?p))
            then queue_bubble_up (q\<lparr>tid := (tid q)[ind := tid q ! ?p, ?p := tid q ! ind]\<rparr>) ?p
            else (q, ind))"
  proof (cases "0 < ind \<and> \<not> ?w < weight (tasks q (tid q ! ?p))")
    case True
    have pi: "?p < ind" using True by linarith
    have "(tid q)[ind := tid q ! ?p, ?p := tid q ! ind] ! ?p = tid q ! ind"
      using pi assms by simp
    moreover have "bubble_up_loop (tasks q) ?w (tid q) ind =
        bubble_up_loop (tasks q) ?w ((tid q)[ind := tid q ! ?p, ?p := tid q ! ind]) ?p"
      using True by (subst bubble_up_loop.simps) (simp add: Let_def)
    ultimately show ?thesis
      using True by (simp add: queue_bubble_up_def Let_def case_prod_beta)
  next
    case False
    then have "bubble_up_loop (tasks q) ?w (tid q) ind = (tid q, ind)"
      by (subst bubble_up_loop.simps) (auto simp: Let_def)
    then show ?thesis
      using False by (auto simp: queue_bubble_up_def Let_def)
  qed
  show "\<not> ?w < weight (tasks q (tid q ! ?p)) \<longleftrightarrow>
          weight (tasks q (tid q ! ?p)) \<le> ?w \<or> ?w = NaN \<or> weight (tasks q (tid q ! ?p)) = NaN"
    by (rule float_not_less)
  show "tid (fst (queue_bubble_up q ind)) ! snd (queue_bubble_up q ind) = tid q ! ind"
    using bubble_up_loop_entry [OF assms, of "tasks q" ?w]
    by (simp add: queue_bubble_up_def Let_def case_prod_beta)
  show "snd (queue_bubble_up q ind) = 0 \<or>
        ?w < weight (tasks q (tid (fst (queue_bubble_up q ind)) !
                      ((snd (queue_bubble_up q ind) - 1) div 2)))"
    using bubble_up_loop_stop [of "tasks q" ?w "tid q" ind]
    by (simp add: queue_bubble_up_def Let_def case_prod_beta)
qed

lemma example_bubble_up:
  "tid (fst (queue_bubble_up (example_queue\<lparr>tid := [2, 1, 0, 3]\<rparr>) 3)) = [2, 3, 0, 1]
   \<and> snd (queue_bubble_up (example_queue\<lparr>tid := [2, 1, 0, 3]\<rparr>) 3) = 1"
  by code_simp

theorem queue_bubble_up_moves_up_witness:
  "(3::nat) < length (tid (example_queue\<lparr>tid := [2, 1, 0, 3]\<rparr>))
   \<and> tid (fst (queue_bubble_up (example_queue\<lparr>tid := [2, 1, 0, 3]\<rparr>) 3)) = [2, 3, 0, 1]
   \<and> snd (queue_bubble_up (example_queue\<lparr>tid := [2, 1, 0, 3]\<rparr>) 3) = 1
   \<and> tid (fst (queue_bubble_up (example_queue\<lparr>tid := [2, 1, 0, 3]\<rparr>) 3)) !
        snd (queue_bubble_up (example_queue\<lparr>tid := [2, 1, 0, 3]\<rparr>) 3)
      = tid (example_queue\<lparr>tid := [2, 1, 0, 3]\<rparr>) ! 3"
proof -
  have h: "(3::nat) < length (tid (example_queue\<lparr>tid := [2, 1, 0, 3]\<rparr>))"
    by (simp add: example_queue_def)
  from queue_bubble_up_moves_up [OF h] example_bubble_up h show ?thesis
    by blast
qed

text \<open>
  C5, as the claim states it, fails for a weight that is NaN: the claim moves an entry up
  when its weight is greater than or equal to the weight of its parent, the code when it
  is not less. The entry of weight NaN below a root of weight 9 is not greater than or
  equal to it, and \<open>queue_bubble_up\<close> swaps the two and returns 0.
\<close>

theorem bubble_up_nan_counterexample:
  "(1::nat) < length (tid (nan_queue\<lparr>tid := [0, 1], count_q := 2\<rparr>))
   \<and> weight (tasks nan_queue 0) = Float 9 \<and> weight (tasks nan_queue 1) = NaN
   \<and> \<not> weight (tasks nan_queue 0) \<le> weight (tasks nan_queue 1)
   \<and> tid (fst (queue_bubble_up (nan_queue\<lparr>tid := [0, 1], count_q := 2\<rparr>) 1)) = [1, 0]
   \<and> snd (queue_bubble_up (nan_queue\<lparr>tid := [0, 1], count_q := 2\<rparr>) 1) = 0"
  by code_simp

text \<open>
  C10. \<open>queue_bubble_up\<close> and \<open>queue_sift_down\<close>, started at an index below \<open>count\<close> of a
  heap array that holds \<open>count\<close> entries, return an index below \<open>count\<close> and leave the
  multiset of the task indices in the first \<open>count\<close> places as it was.
\<close>

theorem heap_moves_stay_in_heap:
  assumes "ind < count_q q" and "count_q q \<le> length (tid q)"
  shows "snd (queue_bubble_up q ind) < count_q q
       \<and> mset (take (count_q q) (tid (fst (queue_bubble_up q ind)))) = mset (take (count_q q) (tid q))
       \<and> snd (queue_sift_down q ind) < count_q q
       \<and> mset (take (count_q q) (tid (fst (queue_sift_down q ind)))) = mset (take (count_q q) (tid q))"
proof -
  let ?w = "weight (tasks q (tid q ! ind))"
  have "snd (bubble_up_loop (tasks q) ?w (tid q) ind) < count_q q"
    using bubble_up_loop_le [of "tasks q" ?w "tid q" ind] assms by simp
  moreover note bubble_up_loop_mset [OF assms, of "tasks q" ?w]
    sift_down_loop_range [OF assms(1), of "tasks q" ?w "tid q"]
    sift_down_loop_mset [OF assms, of "tasks q" ?w]
  ultimately show ?thesis
    by (simp add: queue_bubble_up_def queue_sift_down_def Let_def case_prod_beta)
qed

lemma example_sift_down:
  "tid (fst (queue_sift_down (example_queue\<lparr>tid := [1, 3, 0, 2]\<rparr>) 0)) = [0, 3, 1, 2]
   \<and> snd (queue_sift_down (example_queue\<lparr>tid := [1, 3, 0, 2]\<rparr>) 0) = 2"
  by code_simp

theorem heap_moves_stay_in_heap_witness:
  "(0::nat) < count_q (example_queue\<lparr>tid := [1, 3, 0, 2]\<rparr>)
   \<and> count_q (example_queue\<lparr>tid := [1, 3, 0, 2]\<rparr>)
       \<le> length (tid (example_queue\<lparr>tid := [1, 3, 0, 2]\<rparr>))
   \<and> snd (queue_sift_down (example_queue\<lparr>tid := [1, 3, 0, 2]\<rparr>) 0) = 2
   \<and> mset (take (count_q (example_queue\<lparr>tid := [1, 3, 0, 2]\<rparr>))
        (tid (fst (queue_sift_down (example_queue\<lparr>tid := [1, 3, 0, 2]\<rparr>) 0))))
      = mset (take (count_q (example_queue\<lparr>tid := [1, 3, 0, 2]\<rparr>))
          (tid (example_queue\<lparr>tid := [1, 3, 0, 2]\<rparr>)))"
proof -
  have h: "(0::nat) < count_q (example_queue\<lparr>tid := [1, 3, 0, 2]\<rparr>)"
    "count_q (example_queue\<lparr>tid := [1, 3, 0, 2]\<rparr>)
       \<le> length (tid (example_queue\<lparr>tid := [1, 3, 0, 2]\<rparr>))"
    by (simp_all add: example_queue_def)
  from heap_moves_stay_in_heap [OF h] example_sift_down h show ?thesis
    by blast
qed

text \<open>
  C8. A non-blocking \<open>queue_gettask\<close> on a queue whose lock is held returns no task and
  leaves the queue, with all its fields, and the task locks as they were.
\<close>

theorem gettask_trylock_fails:
  assumes "lock q"
  shows "queue_gettask P malloc_ok task_overlap task_lock q l prev False = Some (Inr (None, q, l))"
  using assms by (simp add: queue_gettask_def lock_trylock_def)

theorem gettask_trylock_fails_witness:
  "lock (example_queue\<lparr>lock := True\<rparr>)
   \<and> queue_gettask example_params malloc_always overlap_zero lock_always
        (example_queue\<lparr>lock := True\<rparr>) () None False
      = Some (Inr (None, example_queue\<lparr>lock := True\<rparr>, ()))"
proof -
  have h: "lock (example_queue\<lparr>lock := True\<rparr>)" by simp
  from gettask_trylock_fails [OF h, of example_params malloc_always overlap_zero lock_always
      "()" None] h
  show ?thesis by simp
qed

text \<open>
  C9. With a window of at least one entry, the search of \<open>queue_gettask\<close> never reads or
  writes the window outside its \<open>queue_search_window\<close> entries: the scan, started as
  \<open>queue_gettask\<close> starts it, ends without \<open>Out_of_bounds\<close> and leaves a \<open>window_count\<close> of
  at most \<open>queue_search_window\<close>, the fallback loop run from there ends without
  \<open>Out_of_bounds\<close>, and so does the search as a whole.
\<close>

theorem window_within_bounds:
  assumes "0 < search_window"
  shows "\<exists>window window_count tid1 ind1 l1.
           gettask_scan search_window overlap task_lock qtid old_qcount 0
             (replicate search_window \<lparr>w_ind = 0, w_tid = 0, w_score = Float 0\<rparr>) 0 l
             = Inr (window, window_count, tid1, ind1, l1)
         \<and> length window = search_window
         \<and> window_count \<le> search_window
         \<and> (\<exists>r. gettask_fallback task_lock window window_count tid1 ind1 l1 = Inr r)
         \<and> (\<exists>r. gettask_search search_window overlap task_lock qtid old_qcount l = Inr r)"
proof -
  let ?w0 = "replicate search_window \<lparr>w_ind = 0, w_tid = 0, w_score = Float 0\<rparr>"
  have "win_ok overlap qtid old_qcount ?w0 0" by (simp add: win_ok_def)
  then obtain window wc tid1 ind1 l1 where
    s: "gettask_scan search_window overlap task_lock qtid old_qcount 0 ?w0 0 l =
          Inr (window, wc, tid1, ind1, l1)"
    and len: "length window = search_window"
    and w: "win_ok overlap qtid old_qcount window wc" and sel: "sel_ok qtid old_qcount tid1 ind1"
    using gettask_scan_ok [of search_window ?w0 0 0 old_qcount overlap qtid task_lock l] assms
    by auto
  have "wc \<le> search_window" using w len by (simp add: win_ok_def)
  moreover have "\<exists>r. gettask_fallback task_lock window wc tid1 ind1 l1 = Inr r"
    using gettask_fallback_ok [OF w sel, of task_lock l1] by blast
  moreover have "\<exists>r. gettask_search search_window overlap task_lock qtid old_qcount l = Inr r"
    using gettask_search_ok [OF assms, of overlap task_lock qtid old_qcount l] by blast
  ultimately show ?thesis using s len by blast
qed

lemma example_search:
  "gettask_search 2 (overlap_zero None) lock_always [2, 3, 0, 1] 4 () = Inr (2, 0, ())"
  by code_simp

theorem window_within_bounds_witness:
  "(0::nat) < 2
   \<and> gettask_search 2 (overlap_zero None) lock_always [2, 3, 0, 1] 4 () = Inr (2, 0, ())
   \<and> (\<exists>r. gettask_search 2 (overlap_zero None) lock_always [2, 3, 0, 1] 4 () = Inr r)"
proof -
  have h: "(0::nat) < 2" by simp
  from window_within_bounds [OF h, of "overlap_zero None" lock_always "[2, 3, 0, 1]" 4 "()"]
    example_search h
  show ?thesis by blast
qed

text \<open>
  C4, as the code has it. In \<open>queue_sift_down\<close> an entry with a child is compared with
  its left child, or with its right child when that exists and weighs strictly more than
  the left one: no child of the entry weighs more than the child chosen (which then, when
  no child has the weight NaN, weighs at least as much as any child of the entry), and
  the left child is chosen when both weigh the same. The entry is swapped with the chosen
  child, and the loop goes on from there, if and only if that child weighs strictly more
  than the entry; otherwise, and when the entry has no child, nothing changes and the
  index is returned.
\<close>

theorem queue_sift_down_step:
  fixes q :: "float queue"
  assumes "count_q q \<le> length (tid q)"
  shows "queue_sift_down q ind =
           (if 2 * ind + 1 < count_q q \<and>
               weight (tasks q (tid q ! ind)) <
                 weight (tasks q (tid q ! sift_down_child (tasks q) (tid q) (count_q q) ind))
            then queue_sift_down
                   (q\<lparr>tid := (tid q)
                      [sift_down_child (tasks q) (tid q) (count_q q) ind := tid q ! ind,
                       ind := tid q ! sift_down_child (tasks q) (tid q) (count_q q) ind]\<rparr>)
                   (sift_down_child (tasks q) (tid q) (count_q q) ind)
            else (q, ind))
       \<and> (sift_down_child (tasks q) (tid q) (count_q q) ind = 2 * ind + 2 \<longleftrightarrow>
            2 * ind + 2 < count_q q \<and>
            weight (tasks q (tid q ! (2 * ind + 1))) < weight (tasks q (tid q ! (2 * ind + 2))))
       \<and> (sift_down_child (tasks q) (tid q) (count_q q) ind = 2 * ind + 1 \<longleftrightarrow>
            \<not> (2 * ind + 2 < count_q q \<and>
               weight (tasks q (tid q ! (2 * ind + 1))) < weight (tasks q (tid q ! (2 * ind + 2)))))
       \<and> (\<forall>k \<in> {2 * ind + 1, 2 * ind + 2}. k < count_q q \<longrightarrow>
            \<not> weight (tasks q (tid q ! sift_down_child (tasks q) (tid q) (count_q q) ind))
                < weight (tasks q (tid q ! k)))
       \<and> (\<forall>k \<in> {2 * ind + 1, 2 * ind + 2}. k < count_q q \<longrightarrow>
            weight (tasks q (tid q ! (2 * ind + 1))) \<noteq> NaN \<longrightarrow>
            weight (tasks q (tid q ! (2 * ind + 2))) \<noteq> NaN \<longrightarrow>
            weight (tasks q (tid q ! k)) \<le>
              weight (tasks q (tid q ! sift_down_child (tasks q) (tid q) (count_q q) ind)))"
proof (intro conjI)
  let ?c = "sift_down_child (tasks q) (tid q) (count_q q) ind"
  let ?w = "weight (tasks q (tid q ! ind))"
  show "queue_sift_down q ind =
           (if 2 * ind + 1 < count_q q \<and> ?w < weight (tasks q (tid q ! ?c))
            then queue_sift_down (q\<lparr>tid := (tid q)[?c := tid q ! ind, ind := tid q ! ?c]\<rparr>) ?c
            else (q, ind))"
  proof (cases "2 * ind + 1 < count_q q \<and> ?w < weight (tasks q (tid q ! ?c))")
    case True
    have c: "ind < ?c" "?c < count_q q"
      using sift_down_child_range [of ind "count_q q" "tasks q" "tid q"] True by simp_all
    have "(tid q)[?c := tid q ! ind, ind := tid q ! ?c] ! ?c = tid q ! ind"
      using c assms by simp
    moreover have "sift_down_loop (tasks q) ?w (tid q) (count_q q) ind =
        sift_down_loop (tasks q) ?w ((tid q)[?c := tid q ! ind, ind := tid q ! ?c]) (count_q q) ?c"
      using True by (subst sift_down_loop.simps) (simp add: Let_def)
    ultimately show ?thesis
      using True by (simp add: queue_sift_down_def Let_def case_prod_beta)
  next
    case False
    then have "sift_down_loop (tasks q) ?w (tid q) (count_q q) ind = (tid q, ind)"
      by (subst sift_down_loop.simps) (auto simp: Let_def)
    then show ?thesis
      using False by (auto simp: queue_sift_down_def Let_def)
  qed
qed (auto simp: sift_down_child_def Let_def float_le_refl float_not_less
      dest: float_less_asym float_less_imp_le float_less_not_le)

lemma tie_sift_down:
  "weight (tasks tie_queue (tid tie_queue ! 1)) = weight (tasks tie_queue (tid tie_queue ! 2))
   \<and> (2::nat) < count_q tie_queue
   \<and> sift_down_child (tasks tie_queue) (tid tie_queue) (count_q tie_queue) 0 = 1
   \<and> tid (fst (queue_sift_down tie_queue 0)) = [1, 0, 2, 0]
   \<and> snd (queue_sift_down tie_queue 0) = 1"
  by code_simp

theorem queue_sift_down_step_witness:
  "count_q tie_queue \<le> length (tid tie_queue)
   \<and> sift_down_child (tasks tie_queue) (tid tie_queue) (count_q tie_queue) 0 = 1
   \<and> \<not> (2 * 0 + 2 < count_q tie_queue \<and>
          weight (tasks tie_queue (tid tie_queue ! (2 * 0 + 1)))
           < weight (tasks tie_queue (tid tie_queue ! (2 * 0 + 2))))"
proof -
  have h: "count_q tie_queue \<le> length (tid tie_queue)"
    by (simp add: tie_queue_def)
  from queue_sift_down_step [OF h, of 0] tie_sift_down h show ?thesis
    by simp
qed

text \<open>
  C4, as the claim states it, fails where the two children weigh the same: the claim has
  the right child win the tie, the code compares the entry with the left child and moves
  it there. For the heap array \<open>[0, 1, 2]\<close> with the weights 1, 5 and 5 the entry at the
  root goes to index 1, not to index 2.
\<close>

theorem queue_sift_down_tie_counterexample:
  "weight (tasks tie_queue (tid tie_queue ! 1)) = weight (tasks tie_queue (tid tie_queue ! 2))
   \<and> (2::nat) < count_q tie_queue
   \<and> sift_down_child (tasks tie_queue) (tid tie_queue) (count_q tie_queue) 0 \<noteq> 2
   \<and> tid (fst (queue_sift_down tie_queue 0)) = [1, 0, 2, 0]
   \<and> snd (queue_sift_down tie_queue 0) = 1"
  by code_simp

lemma example_heap_ok:
  "2 \<le> queue_sizegrow example_params \<and> 0 < queue_search_window example_params
   \<and> queue_wf example_queue \<and> heap_ok example_queue \<and> weights_ok example_queue"
  by code_simp

lemma example_gettask:
  "(case queue_gettask example_params malloc_always overlap_zero lock_always example_queue ()
          None True of
      Some (Inr (res, q, l)) \<Rightarrow> res = Some 2 \<and> tid q = [0, 3, 1, 1] \<and> count_q q = 3
    | _ \<Rightarrow> False)"
  by code_simp

section \<open>More on the drain\<close>

lemma queue_get_incoming_invariant:
  assumes r: "queue_get_incoming P malloc_ok q = Inr q'"
    and I: "I q"
    and step: "\<forall>q ind q1. I q \<longrightarrow> ind = unat (first_incoming q) mod queue_incoming_size P \<longrightarrow>
                 ind < length (tid_incoming q) \<longrightarrow> 0 \<le> tid_incoming q ! ind \<longrightarrow>
                 get_incoming_round P malloc_ok q ind = Inr q1 \<longrightarrow> I q1"
  shows "I q'"
  using r I step
proof (induction P malloc_ok q rule: queue_get_incoming.induct)
  case (1 P malloc_ok q)
  let ?ind = "unat (first_incoming q) mod queue_incoming_size P"
  from "1.prems"(1) have S: "queue_incoming_size P \<noteq> 0" and b: "?ind < length (tid_incoming q)"
    by (subst (asm) queue_get_incoming.simps, simp add: Let_def split: if_splits)+
  show ?case
  proof (cases "tid_incoming q ! ?ind < 0")
    case True
    then have "q' = q"
      using "1.prems"(1) S b by (subst (asm) queue_get_incoming.simps) (simp add: Let_def)
    then show ?thesis using "1.prems" by simp
  next
    case False
    then obtain q1 where r: "get_incoming_round P malloc_ok q ?ind = Inr q1"
      and rest: "queue_get_incoming P malloc_ok q1 = Inr q'"
      using "1.prems"(1) S b
      by (subst (asm) queue_get_incoming.simps) (simp add: Let_def split: sum.splits)
    have nb: "\<not> length (tid_incoming q) \<le> ?ind" using b by simp
    have "I q1"
      using "1.prems"(3) [rule_format, OF "1.prems"(2) refl b _ r] False by simp
    then show ?thesis
      using "1.IH" [OF S refl nb False r rest _ "1.prems"(3)] by simp
  qed
qed

lemma get_incoming_round_returns:
  "\<forall>n. malloc_ok n \<Longrightarrow> \<exists>q1. get_incoming_round P malloc_ok q ind = Inr q1"
  by (simp add: get_incoming_round_def queue_grow_def Let_def)

lemma queue_get_incoming_returns:
  "0 < queue_incoming_size P \<Longrightarrow> length (tid_incoming q) = queue_incoming_size P \<Longrightarrow>
   \<forall>n. malloc_ok n \<Longrightarrow> \<exists>q'. queue_get_incoming P malloc_ok q = Inr q'"
proof (induction P malloc_ok q rule: queue_get_incoming.induct)
  case (1 P malloc_ok q)
  let ?ind = "unat (first_incoming q) mod queue_incoming_size P"
  have b: "?ind < length (tid_incoming q)" using "1.prems" by simp
  show ?case
  proof (cases "tid_incoming q ! ?ind < 0")
    case True
    then show ?thesis
      using "1.prems" b by (subst queue_get_incoming.simps) (simp add: Let_def)
  next
    case False
    obtain q1 where r: "get_incoming_round P malloc_ok q ?ind = Inr q1"
      using get_incoming_round_returns [OF "1.prems"(3)] by blast
    have S: "queue_incoming_size P \<noteq> 0" using "1.prems"(1) by simp
    have nb: "\<not> length (tid_incoming q) \<le> ?ind" using b by simp
    have l1: "length (tid_incoming q1) = queue_incoming_size P"
      using get_incoming_round_incoming [OF r] "1.prems"(2) by simp
    have "\<exists>q'. queue_get_incoming P malloc_ok q1 = Inr q'"
      using "1.IH" [OF S refl nb False r "1.prems"(1) l1 "1.prems"(3)] .
    then show ?thesis
      using S b False r by (subst queue_get_incoming.simps) (simp add: Let_def)
  qed
qed

lemma heap_refs_ok_lock [simp]: "heap_refs_ok (q\<lparr>lock := b\<rparr>) = heap_refs_ok q"
  by (simp add: heap_refs_ok_def)

section \<open>What the search finds\<close>

lemma win_ok_entry:
  assumes "win_ok overlap qtid n window window_count" "m < window_count"
    "w_ind (window ! m) = int j"
  shows "j < n \<and> w_tid (window ! m) = qtid ! j"
proof -
  obtain j' where "j' < n"
    "window ! m = \<lparr>w_ind = int j', w_tid = qtid ! j', w_score = overlap (qtid ! j')\<rparr>"
    using assms(1,2) by (auto simp: win_ok_def)
  then show ?thesis using assms(3) by simp
qed

lemma win_ok_found:
  assumes "win_ok overlap qtid n window window_count" "m < window_count"
    "fst (task_lock l (w_tid (window ! m)))"
  shows "found task_lock l qtid n (w_tid (window ! m)) (w_ind (window ! m))
           (snd (task_lock l (w_tid (window ! m))))"
proof -
  obtain j' where "j' < n"
    "window ! m = \<lparr>w_ind = int j', w_tid = qtid ! j', w_score = overlap (qtid ! j')\<rparr>"
    using assms(1,2) by (auto simp: win_ok_def)
  then show ?thesis using assms(3) by (auto simp: found_def)
qed

lemma gettask_scan_finds:
  "\<forall>t. \<not> fst (task_lock l t) \<longrightarrow> snd (task_lock l t) = l \<Longrightarrow>
   0 < search_window \<Longrightarrow> length window = search_window \<Longrightarrow>
   window_count = min k search_window \<Longrightarrow> k \<le> old_qcount \<Longrightarrow>
   win_ok overlap qtid old_qcount window window_count \<Longrightarrow>
   covered task_lock l qtid window window_count k \<Longrightarrow>
   gettask_scan search_window overlap task_lock qtid old_qcount k window window_count l =
     Inr (window', window_count', tid1, ind1, l1) \<Longrightarrow>
   found task_lock l qtid old_qcount tid1 ind1 l1 \<or>
   (ind1 = - 1 \<and> tid1 = - 1 \<and> l1 = l \<and> win_ok overlap qtid old_qcount window' window_count' \<and>
    covered task_lock l qtid window' window_count' old_qcount)"
proof (induction search_window overlap task_lock qtid old_qcount k window window_count l
    rule: gettask_scan.induct)
  case (1 search_window overlap task_lock qtid old_qcount k window window_count l)
  let ?e = "\<lparr>w_ind = int k, w_tid = qtid ! k, w_score = overlap (qtid ! k)\<rparr>"
  note pure = "1.prems"(1) and res = "1.prems"(8) and wok = "1.prems"(6) and cov = "1.prems"(7)
  show ?case
  proof (cases "k < old_qcount")
    case False
    then have "k = old_qcount" using "1.prems"(5) by simp
    then show ?thesis
      using res wok cov by (subst (asm) gettask_scan.simps) simp
  next
    case kn: True
    show ?thesis
    proof (cases "k < search_window")
      case True
      have wc: "window_count = k" "window_count < length window"
        using True "1.prems" by simp_all
      have ok: "win_ok overlap qtid old_qcount (window[window_count := ?e]) (window_count + 1)"
        using wok wc kn by (auto simp: win_ok_def nth_list_update less_Suc_eq)
      have cv: "covered task_lock l qtid (window[window_count := ?e]) (window_count + 1) (k + 1)"
        unfolding covered_def
      proof (intro allI impI)
        fix j assume j: "j < k + 1"
        show "(\<exists>i<window_count + 1. w_ind (window[window_count := ?e] ! i) = int j) \<or>
              \<not> fst (task_lock l (qtid ! j))"
        proof (cases "j = k")
          case True
          then have "w_ind (window[window_count := ?e] ! window_count) = int j"
            using wc by simp
          then show ?thesis by auto
        next
          case False
          then have "j < k" using j by simp
          then consider i where "i < window_count" "w_ind (window ! i) = int j"
            | "\<not> fst (task_lock l (qtid ! j))"
            using cov by (auto simp: covered_def)
          then show ?thesis
          proof cases
            case 1
            then have "w_ind (window[window_count := ?e] ! i) = int j" by simp
            then show ?thesis using 1(1) by (auto simp: less_Suc_eq)
          next
            case 2
            then show ?thesis by simp
          qed
        qed
      qed
      have "gettask_scan search_window overlap task_lock qtid old_qcount (k + 1)
              (window[window_count := ?e]) (window_count + 1) l
            = Inr (window', window_count', tid1, ind1, l1)"
        using res kn True wc by (subst (asm) gettask_scan.simps) simp
      then show ?thesis
        using "1.IH"(1) [OF kn True wc(2) pure "1.prems"(2)] "1.prems"(3) wc kn True ok cv
        by simp
    next
      case False
      have wc: "window_count = search_window" "0 < window_count" "window_count \<le> length window"
        using False "1.prems" by simp_all
      obtain m where m: "m < window_count" "gettask_ind_max window window_count 1 0 = Inr m"
        using gettask_ind_max_ok [of 0 1 window_count window] wc by auto
      have ml: "m < length window" using m wc by simp
      show ?thesis
      proof (cases "fst (task_lock l (w_tid (window ! m)))")
        case True
        have "tid1 = w_tid (window ! m) \<and> ind1 = w_ind (window ! m) \<and>
              l1 = snd (task_lock l (w_tid (window ! m)))"
          using res kn False m ml True by (subst (asm) gettask_scan.simps) auto
        then show ?thesis
          using win_ok_found [of overlap qtid old_qcount window window_count m task_lock l]
            wok m(1) True by simp
      next
        case nolock: False
        have l': "snd (task_lock l (w_tid (window ! m))) = l"
          using pure nolock by simp
        have ok: "win_ok overlap qtid old_qcount (window[m := ?e]) window_count"
          using wok kn ml by (auto simp: win_ok_def nth_list_update)
        have cv: "covered task_lock l qtid (window[m := ?e]) window_count (k + 1)"
          unfolding covered_def
        proof (intro allI impI)
          fix j assume j: "j < k + 1"
          show "(\<exists>i<window_count. w_ind (window[m := ?e] ! i) = int j) \<or>
                \<not> fst (task_lock l (qtid ! j))"
          proof (cases "j = k")
            case True
            then have "w_ind (window[m := ?e] ! m) = int j" using ml by simp
            then show ?thesis using m(1) by auto
          next
            case False
            then have "j < k" using j by simp
            then consider i where "i < window_count" "w_ind (window ! i) = int j"
              | "\<not> fst (task_lock l (qtid ! j))"
              using cov by (auto simp: covered_def)
            then show ?thesis
            proof cases
              case 1
              show ?thesis
              proof (cases "i = m")
                case True
                then have "w_tid (window ! m) = qtid ! j"
                  using win_ok_entry [OF wok m(1)] 1 by simp
                then show ?thesis using nolock by simp
              next
                case False
                then have "w_ind (window[m := ?e] ! i) = int j" using 1 by simp
                then show ?thesis using 1(1) by auto
              qed
            next
              case 2
              then show ?thesis by simp
            qed
          qed
        qed
        have "gettask_scan search_window overlap task_lock qtid old_qcount (k + 1)
                (window[m := ?e]) window_count l
              = Inr (window', window_count', tid1, ind1, l1)"
          using res kn False m ml nolock l' by (subst (asm) gettask_scan.simps) simp
        then show ?thesis
          using "1.IH"(2) [OF kn False m(2) ml nolock] l' pure "1.prems"(2,3) wc kn False ok cv
          by simp
      qed
    qed
  qed
qed

lemma gettask_fallback_finds:
  "\<forall>t. \<not> fst (task_lock l t) \<longrightarrow> snd (task_lock l t) = l \<Longrightarrow>
   win_ok overlap qtid n window window_count \<Longrightarrow>
   covered task_lock l qtid window window_count n \<Longrightarrow>
   gettask_fallback task_lock window window_count tid0 ind0 l = Inr (tid1, ind1, l1) \<Longrightarrow>
   found task_lock l qtid n tid1 ind1 l1 \<or>
   (tid1 = tid0 \<and> ind1 = ind0 \<and> l1 = l \<and> (\<forall>j < n. \<not> fst (task_lock l (qtid ! j))))"
proof (induction task_lock window window_count tid0 ind0 l rule: gettask_fallback.induct)
  case (1 task_lock window window_count tid0 ind0 l)
  note pure = "1.prems"(1) and wok = "1.prems"(2) and cov = "1.prems"(3) and res = "1.prems"(4)
  show ?case
  proof (cases "window_count > 0")
    case False
    then have "tid1 = tid0 \<and> ind1 = ind0 \<and> l1 = l"
      using res by (subst (asm) gettask_fallback.simps) simp
    moreover have "\<forall>j < n. \<not> fst (task_lock l (qtid ! j))"
      using cov False by (simp add: covered_def)
    ultimately show ?thesis by simp
  next
    case True
    have wl: "window_count \<le> length window"
      using wok by (simp add: win_ok_def)
    obtain m where m: "m < window_count" "gettask_ind_max window window_count 1 0 = Inr m"
      using gettask_ind_max_ok [of 0 1 window_count window] True wl by auto
    have ml: "m < length window" using m wl by simp
    show ?thesis
    proof (cases "fst (task_lock l (w_tid (window ! m)))")
      case lock: True
      have "tid1 = w_tid (window ! m) \<and> ind1 = w_ind (window ! m) \<and>
            l1 = snd (task_lock l (w_tid (window ! m)))"
        using res True m ml lock by (subst (asm) gettask_fallback.simps) auto
      then show ?thesis
        using win_ok_found [of overlap qtid n window window_count m task_lock l]
          wok m(1) lock by simp
    next
      case nolock: False
      let ?win = "window[m := window ! (window_count - 1)]"
      have l': "snd (task_lock l (w_tid (window ! m))) = l"
        using pure nolock by simp
      have last: "window_count - 1 < length window" using True wl by simp
      have ok: "win_ok overlap qtid n ?win (window_count - 1)"
        using wok True m(1) ml by (auto simp: win_ok_def nth_list_update)
      have cv: "covered task_lock l qtid ?win (window_count - 1) n"
        unfolding covered_def
      proof (intro allI impI)
        fix j assume j: "j < n"
        consider i where "i < window_count" "w_ind (window ! i) = int j"
          | "\<not> fst (task_lock l (qtid ! j))"
          using cov j by (auto simp: covered_def)
        then show "(\<exists>i<window_count - 1. w_ind (?win ! i) = int j) \<or>
                   \<not> fst (task_lock l (qtid ! j))"
        proof cases
          case 1
          consider "i = m" | "i \<noteq> m" "i = window_count - 1" | "i \<noteq> m" "i < window_count - 1"
            using 1(1) by linarith
          then show ?thesis
          proof cases
            case 1
            then have "w_tid (window ! m) = qtid ! j"
              using win_ok_entry [OF wok m(1)] \<open>w_ind (window ! i) = int j\<close> by simp
            then show ?thesis using nolock by simp
          next
            case 2
            then have "m < window_count - 1" using m(1) by simp
            moreover have "w_ind (?win ! m) = int j"
              using 2 ml \<open>w_ind (window ! i) = int j\<close> by simp
            ultimately show ?thesis by auto
          next
            case 3
            then have "w_ind (?win ! i) = int j"
              using \<open>w_ind (window ! i) = int j\<close> by simp
            then show ?thesis using 3 by auto
          qed
        next
          case 2
          then show ?thesis by simp
        qed
      qed
      have "gettask_fallback task_lock ?win (window_count - 1) tid0 ind0 l = Inr (tid1, ind1, l1)"
        using res True m ml nolock l' last by (subst (asm) gettask_fallback.simps) simp
      then show ?thesis
        using "1.IH" [OF True m(2) ml nolock last] l' pure ok cv by simp
    qed
  qed
qed

lemma get_incoming_round_heap:
  assumes g: "2 \<le> queue_sizegrow P" and wf: "queue_wf q"
    and r: "get_incoming_round P malloc_ok q ind = Inr q'"
  shows "queue_wf q'"
    and "mset (take (count_q q') (tid q')) =
           add_mset (tid_incoming q ! ind) (mset (take (count_q q) (tid q)))"
proof -
  define n where "n = count_q q"
  define xs where "xs = round_tid P q ind"
  define w where "w = weight (tasks q (xs ! n))"
  note f = get_incoming_round_fields [OF r]
  note p = round_tid_props [OF g wf, of ind]
  have tid': "tid q' = fst (bubble_up_loop (tasks q) w xs n)"
    using f(8) by (simp add: n_def xs_def w_def)
  have len: "Suc n \<le> length xs" using p(1) by (simp add: xs_def n_def)
  show "queue_wf q'"
    using tid' f(1,7) p(1,2) wf by (auto simp: queue_wf_def xs_def n_def)
  have "mset (take (Suc n) (fst (bubble_up_loop (tasks q) w xs n))) = mset (take (Suc n) xs)"
    using bubble_up_loop_mset [of n "Suc n" xs "tasks q" w] len by simp
  also have "take (Suc n) xs = take n xs @ [xs ! n]"
    using len by (simp add: take_Suc_conv_app_nth)
  also have "mset \<dots> = add_mset (tid_incoming q ! ind) (mset (take n (tid q)))"
    using p(3,4) by (simp add: xs_def n_def)
  finally show "mset (take (count_q q') (tid q')) =
           add_mset (tid_incoming q ! ind) (mset (take (count_q q) (tid q)))"
    using tid' f(1) by (simp add: n_def)
qed

lemma queue_get_incoming_refs:
  assumes g: "2 \<le> queue_sizegrow P" and wf: "queue_wf q" and n: "heap_refs_ok q"
    and r: "queue_get_incoming P malloc_ok q = Inr q'"
  shows "queue_wf q' \<and> heap_refs_ok q' \<and> lock q' = lock q \<and> tasks q' = tasks q
         \<and> length (tid_incoming q') = length (tid_incoming q)"
proof -
  define I where "I = (\<lambda>q1. queue_wf q1 \<and> heap_refs_ok q1 \<and> lock q1 = lock q \<and> tasks q1 = tasks q
         \<and> length (tid_incoming q1) = length (tid_incoming q))"
  have "I q'"
  proof (rule queue_get_incoming_invariant [OF r, where I = I], goal_cases)
    case 1
    show ?case using wf n by (simp add: I_def)
  next
    case 2
    show ?case
    proof (intro allI impI)
      fix q0 ind q1
      assume I: "I q0"
        and p: "0 \<le> tid_incoming q0 ! ind" and r1: "get_incoming_round P malloc_ok q0 ind = Inr q1"
      have wf0: "queue_wf q0" using I by (simp add: I_def)
      note ok = get_incoming_round_heap [OF g wf0 r1]
      note f = get_incoming_round_fields [OF r1] get_incoming_round_incoming [OF r1]
      have "set (take (count_q q1) (tid q1)) =
            insert (tid_incoming q0 ! ind) (set (take (count_q q0) (tid q0)))"
        using ok(2) by (metis set_mset_add_mset_insert set_mset_mset)
      then show "I q1"
        using ok(1) I p f(2,3,9) by (simp add: I_def heap_refs_ok_def)
    qed
  qed
  then show ?thesis by (simp add: I_def)
qed

lemma gettask_search_finds:
  assumes pure: "\<forall>t. \<not> fst (task_lock l t) \<longrightarrow> snd (task_lock l t) = l"
    and W: "0 < search_window"
    and refs: "\<forall>j < old_qcount. 0 \<le> qtid ! j"
    and res: "gettask_search search_window overlap task_lock qtid old_qcount l = Inr (tid1, ind1, l1)"
  shows "found task_lock l qtid old_qcount tid1 ind1 l1 \<or>
         (ind1 = - 1 \<and> l1 = l \<and> (\<forall>j < old_qcount. \<not> fst (task_lock l (qtid ! j))))"
proof -
  let ?w0 = "replicate search_window \<lparr>w_ind = 0, w_tid = 0, w_score = Float 0\<rparr>"
  have w0: "win_ok overlap qtid old_qcount ?w0 0" by (simp add: win_ok_def)
  have c0: "covered task_lock l qtid ?w0 0 0" by (simp add: covered_def)
  obtain window wc tid2 ind2 l2 where
    s: "gettask_scan search_window overlap task_lock qtid old_qcount 0 ?w0 0 l =
          Inr (window, wc, tid2, ind2, l2)"
    using gettask_scan_ok [of search_window ?w0 0 0 old_qcount overlap qtid task_lock l] W w0
    by auto
  have cases: "found task_lock l qtid old_qcount tid2 ind2 l2 \<or>
     (ind2 = - 1 \<and> tid2 = - 1 \<and> l2 = l \<and> win_ok overlap qtid old_qcount window wc \<and>
      covered task_lock l qtid window wc old_qcount)"
    using gettask_scan_finds [OF pure W _ _ _ w0 c0 s] by simp
  show ?thesis
  proof (cases "found task_lock l qtid old_qcount tid2 ind2 l2")
    case True
    then have "\<not> tid2 < 0" using refs by (auto simp: found_def)
    then have "tid1 = tid2 \<and> ind1 = ind2 \<and> l1 = l2"
      using res s by (simp add: gettask_search_def)
    then show ?thesis using True by simp
  next
    case False
    then have n: "ind2 = - 1" "tid2 = - 1" "l2 = l" "win_ok overlap qtid old_qcount window wc"
      "covered task_lock l qtid window wc old_qcount"
      using cases by simp_all
    have "gettask_fallback task_lock window wc (- 1) (- 1) l = Inr (tid1, ind1, l1)"
      using res s n by (simp add: gettask_search_def)
    then show ?thesis
      using gettask_fallback_finds [OF pure n(4,5)] by blast
  qed
qed

lemma nth_in_take: "j < n \<Longrightarrow> n \<le> length xs \<Longrightarrow> xs ! j \<in> set (take n xs)"
  by (metis length_take min.absorb2 nth_mem nth_take)

lemma in_take_nth: "t \<in> set (take n xs) \<Longrightarrow> \<exists>j < n. t = xs ! j"
  by (metis in_set_conv_nth length_take min_less_iff_conj nth_take)

lemma lock_lock_free: "lock_lock False = Some (0, True)"
  by (subst lock_lock.simps) simp

lemma queue_gettask_acquires:
  "\<not> lock q \<Longrightarrow>
   queue_gettask P malloc_ok task_overlap task_lock q l prev blocking =
     Some (gettask_locked P malloc_ok task_overlap task_lock (q\<lparr>lock := True\<rparr>) l prev)"
  by (simp add: queue_gettask_def lock_lock_free lock_trylock_def)

text \<open>
  What \<open>queue_gettask\<close> returns once it holds the queue lock, in terms of the drained
  queue \<open>qd\<close> and of what the search selects in it.
\<close>

lemma gettask_locked_result:
  assumes d: "queue_get_incoming P malloc_ok q = Inr qd" and lk: "lock qd"
    and c: "count_q qd \<noteq> 0"
    and s: "gettask_search (queue_search_window P) (task_overlap prev) task_lock (tid qd)
              (count_q qd) l = Inr (tid1, ind1, l1)"
  shows "gettask_locked P malloc_ok task_overlap task_lock q l prev =
           Inr (if 0 \<le> ind1 then Some tid1 else None,
                (if 0 \<le> ind1 then gettask_remove qd (nat ind1) else qd)\<lparr>lock := False\<rparr>, l1)"
  using d lk c s
  by (simp add: gettask_locked_def Let_def lock_unlock_def gettask_remove_fields)

text \<open>A blocking acquisition of a lock that is held, and that nobody releases, never ends.\<close>

lemma lock_lock_held: "lock_lock True = None"
proof -
  have "\<not> l" if "lock_lock l = Some r" for l r
    using that by (rule lock_lock.raw_induct [rotated]) (auto split: if_splits)
  then show ?thesis by (cases "lock_lock True") auto
qed

text \<open>
  C3, as the code has it. On a well-formed queue, with an allocator that does not fail and
  task locks that a failed trylock leaves as they were, let \<open>qd\<close> be the queue after the
  drain of the incoming buffer. A blocking \<open>queue_gettask\<close> on a queue whose lock is held
  waits for the lock, and with nobody to release it does not return. Every other call
  returns: a task it returns is in the heap of \<open>qd\<close> and its trylock succeeded; it returns
  no task exactly when the queue lock is held, so that the non-blocking call could not
  acquire it, or the heap of \<open>qd\<close> is empty, or the trylock of every task in it fails.
  A call that could not acquire the queue lock leaves the queue and the task locks as
  they were.
\<close>

theorem gettask_task_or_none:
  assumes "2 \<le> queue_sizegrow P" and "0 < queue_search_window P"
    and "0 < queue_incoming_size P"
    and "queue_wf q" and "length (tid_incoming q) = queue_incoming_size P"
    and "heap_refs_ok q"
    and "\<forall>n. malloc_ok n"
    and "\<forall>t. \<not> fst (task_lock l t) \<longrightarrow> snd (task_lock l t) = l"
  shows "\<exists>qd. queue_get_incoming P malloc_ok (q\<lparr>lock := True\<rparr>) = Inr qd
         \<and> (if lock q \<and> blocking
            then queue_gettask P malloc_ok task_overlap task_lock q l prev blocking = None
            else \<exists>res q' l'.
                   queue_gettask P malloc_ok task_overlap task_lock q l prev blocking
                     = Some (Inr (res, q', l'))
                 \<and> (\<forall>t. res = Some t \<longrightarrow>
                       t \<in> set (take (count_q qd) (tid qd)) \<and> fst (task_lock l t) \<and>
                       l' = snd (task_lock l t))
                 \<and> (res = None \<longleftrightarrow>
                       lock q \<or> count_q qd = 0 \<or>
                       (\<forall>t \<in> set (take (count_q qd) (tid qd)). \<not> fst (task_lock l t)))
                 \<and> (lock q \<longrightarrow> q' = q \<and> l' = l))"
proof -
  let ?q = "q\<lparr>lock := True\<rparr>"
  obtain qd where d: "queue_get_incoming P malloc_ok ?q = Inr qd"
    using queue_get_incoming_returns [of P ?q malloc_ok] assms(3,5,7) by auto
  have qd: "queue_wf qd" "heap_refs_ok qd" "lock qd"
    using queue_get_incoming_refs [OF assms(1) _ _ d] assms(4,6) by simp_all
  have len: "count_q qd \<le> length (tid qd)"
    using qd(1) by (simp add: queue_wf_def)
  show ?thesis
  proof (cases "lock q")
    case held: True
    show ?thesis
    proof (cases blocking)
      case True
      then show ?thesis using held d by (simp add: queue_gettask_def lock_lock_held)
    next
      case False
      then have "queue_gettask P malloc_ok task_overlap task_lock q l prev blocking
          = Some (Inr (None, q, l))"
        using held by (simp add: queue_gettask_def lock_trylock_def)
      then show ?thesis using held False d by simp
    qed
  next
    case free: False
    have acq: "queue_gettask P malloc_ok task_overlap task_lock q l prev blocking =
       Some (gettask_locked P malloc_ok task_overlap task_lock ?q l prev)"
      using queue_gettask_acquires [OF free] .
    show ?thesis
    proof (cases "count_q qd = 0")
      case True
      then have "gettask_locked P malloc_ok task_overlap task_lock ?q l prev =
          Inr (None, qd\<lparr>lock := lock_unlock_blind (lock qd)\<rparr>, l)"
        using d by (simp add: gettask_locked_def)
      then show ?thesis using d acq True free by simp
    next
      case False
      obtain tid1 ind1 l1 where
        s: "gettask_search (queue_search_window P) (task_overlap prev) task_lock (tid qd)
              (count_q qd) l = Inr (tid1, ind1, l1)"
        using gettask_search_ok [OF assms(2), of "task_overlap prev" task_lock "tid qd"
            "count_q qd" l] by blast
      have refs: "\<forall>j < count_q qd. 0 \<le> tid qd ! j"
        using qd(2) len nth_in_take [of _ "count_q qd" "tid qd"] by (simp add: heap_refs_ok_def)
      note r = gettask_locked_result [where task_overlap = task_overlap and prev = prev,
          OF d qd(3) False s]
      from gettask_search_finds [OF assms(8,2) refs s]
      show ?thesis
      proof
        assume f: "found task_lock l (tid qd) (count_q qd) tid1 ind1 l1"
        then have "tid1 \<in> set (take (count_q qd) (tid qd))"
          using len nth_in_take [of _ "count_q qd" "tid qd"] by (auto simp: found_def)
        then show ?thesis
          using f d acq r False free by (auto simp: found_def)
      next
        assume n: "ind1 = - 1 \<and> l1 = l \<and> (\<forall>j < count_q qd. \<not> fst (task_lock l (tid qd ! j)))"
        then have "\<forall>t \<in> set (take (count_q qd) (tid qd)). \<not> fst (task_lock l t)"
          using in_take_nth [of _ "count_q qd" "tid qd"] by blast
        then show ?thesis
          using n d acq r free by auto
      qed
    qed
  qed
qed

lemma example_gettask_busy:
  "(case queue_gettask example_params malloc_always overlap_zero lock_unless_busy
          example_queue [2] None False of
      Some (Inr (res, q, l)) \<Rightarrow> res = Some 0 \<and> tid q = [2, 3, 1, 1] \<and> count_q q = 3 \<and> l = [0, 2]
    | _ \<Rightarrow> False)"
  by code_simp

lemma example_gettask_all_busy:
  "(case queue_gettask example_params malloc_always overlap_zero lock_unless_busy
          example_queue [0, 1, 2, 3] None False of
      Some (Inr (res, q, l)) \<Rightarrow> res = None \<and> tid q = [2, 3, 0, 1] \<and> count_q q = 4
    | _ \<Rightarrow> False)"
  by code_simp

lemma example_gettask_hyps:
  "2 \<le> queue_sizegrow example_params \<and> 0 < queue_search_window example_params
   \<and> 0 < queue_incoming_size example_params
   \<and> queue_wf example_queue
   \<and> length (tid_incoming example_queue) = queue_incoming_size example_params
   \<and> heap_refs_ok example_queue \<and> \<not> lock example_queue"
  by code_simp

lemma example_locks_pure:
  "(\<forall>n. malloc_always n)
   \<and> (\<forall>t. \<not> fst (lock_unless_busy l t) \<longrightarrow> snd (lock_unless_busy l t) = l)"
  by (simp add: malloc_always_def lock_unless_busy_def)

theorem gettask_task_or_none_witness:
  "2 \<le> queue_sizegrow example_params \<and> 0 < queue_search_window example_params
   \<and> 0 < queue_incoming_size example_params
   \<and> queue_wf example_queue
   \<and> length (tid_incoming example_queue) = queue_incoming_size example_params
   \<and> heap_refs_ok example_queue \<and> \<not> lock example_queue
   \<and> (\<exists>q' l'. queue_gettask example_params malloc_always overlap_zero lock_unless_busy
                  example_queue [2] None False = Some (Inr (Some 0, q', l'))
        \<and> fst (lock_unless_busy [2] 0) \<and> l' = snd (lock_unless_busy [2] 0))"
proof -
  note h = example_gettask_hyps example_locks_pure [of "[2]"]
  from h have a: "2 \<le> queue_sizegrow example_params"
    and b: "0 < queue_search_window example_params"
    and c: "0 < queue_incoming_size example_params"
    and d: "queue_wf example_queue"
    and e: "length (tid_incoming example_queue) = queue_incoming_size example_params"
    and f: "heap_refs_ok example_queue" and g: "\<not> lock example_queue"
    and m: "\<forall>n. malloc_always n"
    and p: "\<forall>t. \<not> fst (lock_unless_busy [2] t) \<longrightarrow> snd (lock_unless_busy [2] t) = [2]"
    by blast+
  from gettask_task_or_none [where task_lock = lock_unless_busy and l = "[2]"
      and malloc_ok = malloc_always and task_overlap = overlap_zero and prev = None
      and blocking = False, OF a b c d e f m p] g
  obtain res q' l' where
    r: "queue_gettask example_params malloc_always overlap_zero lock_unless_busy
              example_queue [2] None False = Some (Inr (res, q', l'))"
    and t: "\<forall>t. res = Some t \<longrightarrow> fst (lock_unless_busy [2] t) \<and>
               l' = snd (lock_unless_busy [2] t)"
    by auto
  have "res = Some 0"
    using example_gettask_busy r by simp
  then show ?thesis using h r t by blast
qed

text \<open>
  C3, as the claim states it, fails on a queue whose lock is held: the non-blocking call
  returns no task without draining, although the heap after a drain holds four tasks
  and the trylock of each of them succeeds.
\<close>

theorem gettask_none_counterexample:
  "2 \<le> queue_sizegrow example_params \<and> 0 < queue_search_window example_params
   \<and> 0 < queue_incoming_size example_params
   \<and> queue_wf (example_queue\<lparr>lock := True\<rparr>)
   \<and> length (tid_incoming (example_queue\<lparr>lock := True\<rparr>)) = queue_incoming_size example_params
   \<and> heap_refs_ok (example_queue\<lparr>lock := True\<rparr>)
   \<and> (case queue_gettask example_params malloc_always overlap_zero lock_always
             (example_queue\<lparr>lock := True\<rparr>) () None False of
         Some (Inr (res, q', l')) \<Rightarrow> res = None \<and> count_q q' = 4 \<and> tid q' = [2, 3, 0, 1]
       | _ \<Rightarrow> False)
   \<and> (case queue_get_incoming example_params malloc_always (example_queue\<lparr>lock := True\<rparr>) of
         Inr qd \<Rightarrow>
           count_q qd = 4 \<and> take (count_q qd) (tid qd) = [2, 3, 0, 1]
           \<and> fst (lock_always () 2) \<and> fst (lock_always () 3)
           \<and> fst (lock_always () 0) \<and> fst (lock_always () 1)
       | _ \<Rightarrow> False)"
  by code_simp

section \<open>The incoming buffer as a ring\<close>

lemma slot_less: "0 < queue_incoming_size P \<Longrightarrow> slot P q i < queue_incoming_size P"
  by (simp add: slot_def)

lemma slot_frame [simp]:
  "slot P (q\<lparr>lock := b\<rparr>) = slot P q"
  "slot P (q\<lparr>last_incoming := a\<rparr>) = slot P q"
  "slot P (q\<lparr>count_incoming := a\<rparr>) = slot P q"
  "slot P (q\<lparr>tid_incoming := xs\<rparr>) = slot P q"
  "slot P (gettask_remove q ind) = slot P q"
  by (simp_all add: slot_def fun_eq_iff gettask_remove_fields)

lemma ring_ok_lock [simp]: "ring_ok P (q\<lparr>lock := b\<rparr>) n = ring_ok P q n"
  by (simp add: ring_ok_def)

lemma ring_ok_last [simp]: "ring_ok P (q\<lparr>last_incoming := a\<rparr>) n = ring_ok P q n"
  by (simp add: ring_ok_def)

lemma ring_ok_count_incoming [simp]: "ring_ok P (q\<lparr>count_incoming := a\<rparr>) n = ring_ok P q n"
  by (simp add: ring_ok_def)

lemma ring_ok_remove [simp]: "ring_ok P (gettask_remove q ind) n = ring_ok P q n"
  by (simp add: ring_ok_def gettask_remove_fields)

lemma ring_round:
  assumes ring: "ring_ok P q (Suc n)"
    and r: "get_incoming_round P malloc_ok q (slot P q 0) = Inr q1"
  shows "ring_ok P q1 n" and "pending P q1 n = map (\<lambda>i. tid_incoming q ! slot P q (Suc i)) [0..<n]"
proof -
  let ?S = "queue_incoming_size P"
  note f = get_incoming_round_fields [OF r] get_incoming_round_incoming [OF r]
  have sl: "\<And>i. slot P q1 i = slot P q (Suc i)"
    using f(4) by (simp add: slot_def ac_simps)
  have S: "0 < ?S" and len: "length (tid_incoming q) = ?S"
    and dist: "distinct (map (slot P q) [0..<Suc n])"
    and mem: "\<And>j. j < ?S \<Longrightarrow>
        (if j \<in> slot P q ` {..<Suc n} then 0 \<le> tid_incoming q ! j else tid_incoming q ! j = - 1)"
    using ring by (simp_all add: ring_ok_def)
  have map_eq: "map (slot P q) [0..<Suc n] = slot P q 0 # map (slot P q1) [0..<n]"
    using sl by (simp add: map_upt_Suc del: upt_Suc)
  have d1: "distinct (map (slot P q1) [0..<n])" and notin: "slot P q 0 \<notin> slot P q1 ` {..<n}"
    using dist unfolding map_eq by (auto simp: lessThan_atLeast0)
  have img: "slot P q ` {..<Suc n} = insert (slot P q 0) (slot P q1 ` {..<n})"
  proof -
    have "slot P q ` {..<Suc n} = set (map (slot P q) [0..<Suc n])"
      by (simp add: lessThan_atLeast0 del: upt_Suc)
    also have "\<dots> = insert (slot P q 0) (slot P q1 ` {..<n})"
      unfolding map_eq by (simp add: lessThan_atLeast0)
    finally show ?thesis .
  qed
  have s0: "slot P q 0 < ?S" using slot_less [OF S] .
  show "ring_ok P q1 n"
    unfolding ring_ok_def
  proof (intro conjI allI impI)
    show "0 < ?S" by (rule S)
    show "length (tid_incoming q1) = ?S" using f(9) len by simp
    show "distinct (map (slot P q1) [0..<n])" by (rule d1)
    fix j assume j: "j < ?S"
    show "if j \<in> slot P q1 ` {..<n} then 0 \<le> tid_incoming q1 ! j else tid_incoming q1 ! j = - 1"
    proof (cases "j = slot P q 0")
      case True
      then show ?thesis using notin f(9) s0 len by simp
    next
      case False
      then have "tid_incoming q1 ! j = tid_incoming q ! j" using f(9) by simp
      moreover have "j \<in> slot P q1 ` {..<n} \<longleftrightarrow> j \<in> slot P q ` {..<Suc n}"
        using img False by simp
      ultimately show ?thesis using mem [OF j] by simp
    qed
  qed
  show "pending P q1 n = map (\<lambda>i. tid_incoming q ! slot P q (Suc i)) [0..<n]"
    unfolding pending_def
  proof (rule map_cong [OF refl])
    fix i assume "i \<in> set [0..<n]"
    then have "slot P q1 i \<in> slot P q1 ` {..<n}" by simp
    then have "slot P q1 i \<noteq> slot P q 0" using notin by metis
    then show "tid_incoming q1 ! slot P q1 i = tid_incoming q ! slot P q (Suc i)"
      using f(9) sl by simp
  qed
qed

lemma queue_get_incoming_ring:
  "ring_ok P q n \<Longrightarrow> 2 \<le> queue_sizegrow P \<Longrightarrow> queue_wf q \<Longrightarrow> \<forall>m. malloc_ok m \<Longrightarrow>
   \<exists>q'. queue_get_incoming P malloc_ok q = Inr q' \<and> ring_ok P q' 0 \<and> queue_wf q'
       \<and> first_incoming q' = first_incoming q + of_nat n
       \<and> last_incoming q' = last_incoming q
       \<and> count_incoming q' = count_incoming q - of_nat n
       \<and> count_q q' = count_q q + n \<and> lock q' = lock q \<and> tasks q' = tasks q
       \<and> heap_mset q' = heap_mset q + mset (pending P q n)"
proof (induction n arbitrary: q)
  case 0
  let ?ind = "unat (first_incoming q) mod queue_incoming_size P"
  have S: "0 < queue_incoming_size P" and len: "length (tid_incoming q) = queue_incoming_size P"
    using "0.prems"(1) by (simp_all add: ring_ok_def)
  have "tid_incoming q ! ?ind = - 1"
    using "0.prems"(1) S by (simp add: ring_ok_def)
  moreover have "\<not> length (tid_incoming q) \<le> ?ind"
    using S len by (simp add: not_le)
  ultimately have "queue_get_incoming P malloc_ok q = Inr q"
    using S by (subst queue_get_incoming.simps) (simp add: Let_def)
  then show ?case using "0.prems"(1,3) by (simp add: pending_def)
next
  case (Suc n)
  let ?ind = "slot P q 0"
  have ind: "?ind = unat (first_incoming q) mod queue_incoming_size P"
    by (simp add: slot_def)
  have S: "0 < queue_incoming_size P" and len: "length (tid_incoming q) = queue_incoming_size P"
    using Suc.prems(1) by (simp_all add: ring_ok_def)
  have lt: "?ind < queue_incoming_size P" using slot_less [OF S] .
  have "?ind \<in> slot P q ` {..<Suc n}" by blast
  then have nonneg: "0 \<le> tid_incoming q ! ?ind"
    using Suc.prems(1) lt unfolding ring_ok_def by metis
  obtain q1 where r: "get_incoming_round P malloc_ok q ?ind = Inr q1"
    using get_incoming_round_returns [OF Suc.prems(4)] by blast
  note f = get_incoming_round_fields [OF r]
  note h = get_incoming_round_heap [OF Suc.prems(2,3) r]
  note rr = ring_round [OF Suc.prems(1) r]
  obtain q' where q': "queue_get_incoming P malloc_ok q1 = Inr q'" "ring_ok P q' 0" "queue_wf q'"
    "first_incoming q' = first_incoming q1 + of_nat n"
    "last_incoming q' = last_incoming q1"
    "count_incoming q' = count_incoming q1 - of_nat n"
    "count_q q' = count_q q1 + n" "lock q' = lock q1" "tasks q' = tasks q1"
    "heap_mset q' = heap_mset q1 + mset (pending P q1 n)"
    using Suc.IH [OF rr(1) Suc.prems(2) h(1) Suc.prems(4)] by blast
  have nle: "\<not> length (tid_incoming q) \<le> ?ind"
    using lt len by (simp add: not_le)
  have unf: "queue_get_incoming P malloc_ok q = queue_get_incoming P malloc_ok q1"
    using S nle nonneg r unfolding ind
    by (subst queue_get_incoming.simps) (simp add: Let_def)
  have pend: "pending P q (Suc n) =
      tid_incoming q ! ?ind # map (\<lambda>i. tid_incoming q ! slot P q (Suc i)) [0..<n]"
    by (simp add: pending_def map_upt_Suc del: upt_Suc)
  have "heap_mset q' = heap_mset q + mset (pending P q (Suc n))"
    using q'(10) h(2) rr(2) pend by (simp add: heap_mset_def)
  then show ?case
    using unf q' f by simp
qed

lemma ring_all_empty:
  "ring_ok P q 0 \<Longrightarrow> j < queue_incoming_size P \<Longrightarrow> tid_incoming q ! j = - 1"
  by (simp add: ring_ok_def)

lemma slot_cong: "first_incoming q' = first_incoming q \<Longrightarrow> slot P q' = slot P q"
  by (simp add: slot_def fun_eq_iff)

lemma ring_ok_cong:
  "tid_incoming q' = tid_incoming q \<Longrightarrow> first_incoming q' = first_incoming q \<Longrightarrow>
   ring_ok P q' n = ring_ok P q n"
  using slot_cong [of q' q P] by (simp add: ring_ok_def)

lemma pending_cong:
  "tid_incoming q' = tid_incoming q \<Longrightarrow> first_incoming q' = first_incoming q \<Longrightarrow>
   pending P q' n = pending P q n"
  using slot_cong [of q' q P] by (simp add: pending_def)

lemma pending_0 [simp]: "pending P q 0 = []"
  by (simp add: pending_def)

lemma ring_store:
  assumes ring: "ring_ok P q n" and t: "0 \<le> t"
    and e: "tid_incoming q ! slot P q n = - 1"
  shows "ring_ok P (q\<lparr>tid_incoming := (tid_incoming q)[slot P q n := t]\<rparr>) (Suc n)"
    and "pending P (q\<lparr>tid_incoming := (tid_incoming q)[slot P q n := t]\<rparr>) (Suc n)
           = pending P q n @ [t]"
proof -
  let ?S = "queue_incoming_size P"
  let ?q = "q\<lparr>tid_incoming := (tid_incoming q)[slot P q n := t]\<rparr>"
  have S: "0 < ?S" and len: "length (tid_incoming q) = ?S"
    and dist: "distinct (map (slot P q) [0..<n])"
    and mem: "\<And>j. j < ?S \<Longrightarrow>
        (if j \<in> slot P q ` {..<n} then 0 \<le> tid_incoming q ! j else tid_incoming q ! j = - 1)"
    using ring by (simp_all add: ring_ok_def)
  have sn: "slot P q n < ?S" using slot_less [OF S] .
  have notin: "slot P q n \<notin> slot P q ` {..<n}"
    using mem [OF sn] e by (auto split: if_splits)
  show "ring_ok P ?q (Suc n)"
    unfolding ring_ok_def
  proof (intro conjI allI impI)
    show "0 < ?S" by (rule S)
    show "length (tid_incoming ?q) = ?S" using len by simp
    show "distinct (map (slot P ?q) [0..<Suc n])"
      using dist notin by (simp add: lessThan_atLeast0)
    fix j assume j: "j < ?S"
    show "if j \<in> slot P ?q ` {..<Suc n} then 0 \<le> tid_incoming ?q ! j
          else tid_incoming ?q ! j = - 1"
    proof (cases "j = slot P q n")
      case True
      then show ?thesis using t sn len by simp
    next
      case False
      then have "j \<in> slot P q ` {..<Suc n} \<longleftrightarrow> j \<in> slot P q ` {..<n}"
        by (auto simp: less_Suc_eq)
      then show ?thesis using mem [OF j] False by simp
    qed
  qed
  have "\<And>i. i < n \<Longrightarrow> slot P q n \<noteq> slot P q i"
    using notin by (metis imageI lessThan_iff)
  then have "map (\<lambda>i. (tid_incoming q)[slot P q n := t] ! slot P q i) [0..<n] =
             map (\<lambda>i. tid_incoming q ! slot P q i) [0..<n]"
    by (intro map_cong [OF refl]) simp
  then show "pending P ?q (Suc n) = pending P q n @ [t]"
    using sn len by (simp add: pending_def)
qed

text \<open>
  An insert into a consistent buffer returns. Either the slot was free and the entry is
  pending behind the others, or the producer drained the buffer into the heap and its
  entry is the only one pending.
\<close>

lemma queue_insert_ring:
  assumes ring: "ring_ok P q n" and cnt: "ring_counts q n"
    and g: "2 \<le> queue_sizegrow P" and wf: "queue_wf q" and m: "\<forall>k. malloc_ok k"
    and lk: "\<not> lock q" and t: "0 \<le> t"
  shows "\<exists>q' n'. queue_insert P malloc_ok q t = Some (Inr q') \<and> ring_ok P q' n' \<and>
           ring_counts q' n' \<and> queue_wf q' \<and> \<not> lock q' \<and> tasks q' = tasks q \<and>
           count_q q' + n' = count_q q + n + 1 \<and>
           heap_mset q' + mset (pending P q' n') =
             add_mset t (heap_mset q + mset (pending P q n)) \<and>
           (n = 0 \<longrightarrow> n' = 1 \<and> count_q q' = count_q q \<and> tid q' = tid q \<and> size_q q' = size_q q
               \<and> pending P q' 1 = [t])"
proof -
  let ?S = "queue_incoming_size P"
  let ?ind = "unat (last_incoming q) mod ?S"
  let ?q1 = "q\<lparr>last_incoming := last_incoming q + 1\<rparr>"
  have S: "0 < ?S" and len: "length (tid_incoming q) = ?S"
    using ring by (simp_all add: ring_ok_def)
  have ind: "?ind = slot P q n" using cnt by (simp add: slot_def ring_counts_def)
  have lt: "?ind < ?S" using S by simp
  have nle: "\<not> length (tid_incoming q) \<le> ?ind" using lt len by (simp add: not_le)
  have ins: "queue_insert P malloc_ok q t =
      (case queue_insert_spin P malloc_ok ?ind t ?q1 of
         None \<Rightarrow> None
       | Some (Inl e) \<Rightarrow> Some (Inl e)
       | Some (Inr q2) \<Rightarrow> Some (Inr (q2\<lparr>count_incoming := count_incoming q2 + 1\<rparr>)))"
    using S by (simp add: queue_insert_def Let_def)
  show ?thesis
  proof (cases "tid_incoming q ! ?ind = - 1")
    case True
    let ?q' = "?q1\<lparr>tid_incoming := (tid_incoming q)[?ind := t],
                   count_incoming := count_incoming q + 1\<rparr>"
    have spin: "queue_insert_spin P malloc_ok ?ind t ?q1 =
        Some (Inr (?q1\<lparr>tid_incoming := (tid_incoming q)[?ind := t]\<rparr>))"
      using nle True by (subst queue_insert_spin.simps) simp
    have r: "queue_insert P malloc_ok q t = Some (Inr ?q')"
      using ins spin by simp
    have e: "tid_incoming q ! slot P q n = - 1" using True ind by simp
    note st = ring_store [OF ring t e]
    have ro: "ring_ok P ?q' (Suc n)"
      using st(1) ind
        ring_ok_cong [of ?q' "q\<lparr>tid_incoming := (tid_incoming q)[slot P q n := t]\<rparr>" P "Suc n"]
      by simp
    have pe: "pending P ?q' (Suc n) = pending P q n @ [t]"
      using st(2) ind
        pending_cong [of ?q' "q\<lparr>tid_incoming := (tid_incoming q)[slot P q n := t]\<rparr>" P "Suc n"]
      by simp
    have rc: "ring_counts ?q' (Suc n)"
      using cnt by (simp add: ring_counts_def)
    have "heap_mset ?q' = heap_mset q" by (simp add: heap_mset_def)
    moreover have "queue_wf ?q'" using wf by simp
    moreover have "n = 0 \<longrightarrow> pending P ?q' 1 = [t]"
      using pe by auto
    ultimately show ?thesis
      using r ro rc pe lk by (intro exI [of _ ?q'] exI [of _ "Suc n"]) simp
  next
    case False
    have n0: "n \<noteq> 0"
    proof
      assume "n = 0"
      then have "tid_incoming q ! ?ind = - 1"
        using ring_all_empty [of P q ?ind] ring lt by simp
      then show False using False by simp
    qed
    let ?q0 = "?q1\<lparr>lock := True\<rparr>"
    obtain qd where d: "queue_get_incoming P malloc_ok ?q0 = Inr qd" "ring_ok P qd 0" "queue_wf qd"
      "first_incoming qd = first_incoming ?q0 + of_nat n"
      "last_incoming qd = last_incoming ?q0"
      "count_incoming qd = count_incoming ?q0 - of_nat n"
      "count_q qd = count_q ?q0 + n" "lock qd = lock ?q0" "tasks qd = tasks ?q0"
      "heap_mset qd = heap_mset ?q0 + mset (pending P ?q0 n)"
      using queue_get_incoming_ring [of P ?q0 n malloc_ok] ring g wf m by auto
    let ?q2 = "qd\<lparr>lock := False\<rparr>"
    have lend: "length (tid_incoming qd) = ?S"
      using d(2) by (simp add: ring_ok_def)
    have e: "tid_incoming qd ! ?ind = - 1"
      using ring_all_empty [OF d(2) lt] .
    have spin2: "queue_insert_spin P malloc_ok ?ind t ?q2 =
        Some (Inr (?q2\<lparr>tid_incoming := (tid_incoming qd)[?ind := t]\<rparr>))"
      using lend lt e by (subst queue_insert_spin.simps) (simp add: not_le)
    have spin: "queue_insert_spin P malloc_ok ?ind t ?q1 =
        Some (Inr (?q2\<lparr>tid_incoming := (tid_incoming qd)[?ind := t]\<rparr>))"
      using nle False lk d(1,8) spin2
      by (subst queue_insert_spin.simps) (simp add: lock_trylock_def lock_unlock_def)
    let ?q' = "?q2\<lparr>tid_incoming := (tid_incoming qd)[?ind := t],
                   count_incoming := count_incoming qd + 1\<rparr>"
    have r: "queue_insert P malloc_ok q t = Some (Inr ?q')"
      using ins spin by simp
    have fd: "first_incoming qd = last_incoming q"
      using d(4) cnt by (simp add: ring_counts_def)
    have sl: "slot P ?q2 0 = ?ind"
      using fd by (simp add: slot_def)
    have e2: "tid_incoming ?q2 ! slot P ?q2 0 = - 1" using e sl by simp
    have r2: "ring_ok P ?q2 0" using d(2) by simp
    note st = ring_store [OF r2 t e2]
    have ro: "ring_ok P ?q' 1"
      using st(1) sl
        ring_ok_cong [of ?q' "?q2\<lparr>tid_incoming := (tid_incoming ?q2)[slot P ?q2 0 := t]\<rparr>" P 1]
      by simp
    have pe: "pending P ?q' 1 = [t]"
      using st(2) sl
        pending_cong [of ?q' "?q2\<lparr>tid_incoming := (tid_incoming ?q2)[slot P ?q2 0 := t]\<rparr>" P 1]
      by (simp add: pending_def)
    have rc: "ring_counts ?q' 1"
      using d(5,6) fd cnt by (simp add: ring_counts_def)
    have hm: "heap_mset ?q' = heap_mset q + mset (pending P q n)"
      using d(7,10) by (simp add: heap_mset_def pending_def)
    have "queue_wf ?q'" using d(3) by simp
    then show ?thesis
      using r ro rc pe hm d(7,9) n0
      by (intro exI [of _ ?q'] exI [of _ 1]) simp
  qed
qed

lemma ring_pending_count:
  assumes "ring_ok P q n"
  shows "incoming_pending (tid_incoming q) = n"
proof -
  let ?S = "queue_incoming_size P"
  have S: "0 < ?S" and len: "length (tid_incoming q) = ?S"
    and dist: "distinct (map (slot P q) [0..<n])"
    and mem: "\<And>j. j < ?S \<Longrightarrow>
        (if j \<in> slot P q ` {..<n} then 0 \<le> tid_incoming q ! j else tid_incoming q ! j = - 1)"
    using assms by (simp_all add: ring_ok_def)
  have "{i. i < length (tid_incoming q) \<and> 0 \<le> tid_incoming q ! i} = slot P q ` {..<n}"
  proof (intro set_eqI iffI)
    fix j assume "j \<in> {i. i < length (tid_incoming q) \<and> 0 \<le> tid_incoming q ! i}"
    then have j: "j < ?S" "0 \<le> tid_incoming q ! j" using len by simp_all
    show "j \<in> slot P q ` {..<n}"
    proof (rule ccontr)
      assume "j \<notin> slot P q ` {..<n}"
      then have "tid_incoming q ! j = - 1" using mem [OF j(1)] by simp
      then show False using j(2) by simp
    qed
  next
    fix j assume a: "j \<in> slot P q ` {..<n}"
    then have "j < ?S" using slot_less [OF S] by auto
    then show "j \<in> {i. i < length (tid_incoming q) \<and> 0 \<le> tid_incoming q ! i}"
      using mem [of j] a len by simp
  qed
  then have "incoming_pending (tid_incoming q) = card (slot P q ` {..<n})"
    by (simp add: incoming_pending_def length_filter_conv_card)
  also have "slot P q ` {..<n} = set (map (slot P q) [0..<n])"
    by (simp add: lessThan_atLeast0)
  also have "card \<dots> = n"
    using distinct_card [OF dist] by simp
  finally show ?thesis .
qed

lemma gettask_remove_mset:
  assumes ind: "ind < count_q q" and len: "count_q q \<le> length (tid q)"
  shows "add_mset (tid q ! ind) (heap_mset (gettask_remove q ind)) = heap_mset q"
proof -
  define n where "n = count_q q - 1"
  have n: "count_q q = Suc n" "ind \<le> n" "n < length (tid q)"
    using ind len by (simp_all add: n_def)
  have full: "heap_mset q = add_mset (tid q ! n) (mset (take n (tid q)))"
    using n by (simp add: heap_mset_def take_Suc_conv_app_nth)
  show ?thesis
  proof (cases "ind < n")
    case False
    then have "ind = n" using n by simp
    moreover have "gettask_remove q ind = q\<lparr>count_q := n\<rparr>"
      using False by (simp add: gettask_remove_def Let_def n_def)
    ultimately show ?thesis using full by (simp add: heap_mset_def)
  next
    case True
    define xs where "xs = (tid q)[ind := tid q ! n]"
    define w where "w = weight (tasks q (xs ! ind))"
    define r where "r = bubble_up_loop (tasks q) w xs ind"
    have lx: "n \<le> length xs" using n by (simp add: xs_def)
    have sn: "snd r < n"
      using bubble_up_loop_le [of "tasks q" w xs ind] True by (simp add: r_def)
    have lr: "n \<le> length (fst r)" using lx by (simp add: r_def)
    have "gettask_remove q ind =
      q\<lparr>count_q := n, tid := fst (sift_down_loop (tasks q) (weight (tasks q (fst r ! snd r)))
                                 (fst r) n (snd r))\<rparr>"
      unfolding r_def w_def xs_def n_def using True
      by (simp add: gettask_remove_def Let_def queue_bubble_up_def queue_sift_down_def
          case_prod_beta n_def)
    then have "heap_mset (gettask_remove q ind) =
        mset (take n (fst (sift_down_loop (tasks q) (weight (tasks q (fst r ! snd r)))
                                 (fst r) n (snd r))))"
      by (simp add: heap_mset_def)
    also have "\<dots> = mset (take n (fst r))"
      using sift_down_loop_mset [OF sn lr] .
    also have "\<dots> = mset (take n xs)"
      unfolding r_def using bubble_up_loop_mset [OF True lx] .
    also have "take n xs = (take n (tid q))[ind := tid q ! n]"
      by (simp add: xs_def take_update_swap)
    finally have "heap_mset (gettask_remove q ind) = mset ((take n (tid q))[ind := tid q ! n])" .
    moreover have "mset ((take n (tid q))[ind := tid q ! n]) =
        add_mset (tid q ! n) (mset (take n (tid q)) - {#tid q ! ind#})"
      using True n by (simp add: mset_update)
    moreover have "tid q ! ind \<in># mset (take n (tid q))"
      using True n nth_in_take [of ind n "tid q"] by simp
    ultimately show ?thesis using full by simp
  qed
qed

lemma ring_counts_frame [simp]:
  "ring_counts (q\<lparr>lock := b\<rparr>) n = ring_counts q n"
  "ring_counts (gettask_remove q ind) n = ring_counts q n"
  by (simp_all add: ring_counts_def gettask_remove_fields)

lemma heap_mset_lock [simp]: "heap_mset (q\<lparr>lock := b\<rparr>) = heap_mset q"
  by (simp add: heap_mset_def)

lemma pending_lock [simp]: "pending P (q\<lparr>lock := b\<rparr>) n = pending P q n"
  by (simp add: pending_def)

text \<open>
  \<open>queue_gettask\<close> on a consistent queue whose lock is free returns; it moves the
  pending entries into the heap and takes at most one task out.
\<close>

lemma queue_gettask_ring:
  assumes ring: "ring_ok P q n" and cnt: "ring_counts q n"
    and g: "2 \<le> queue_sizegrow P" and W: "0 < queue_search_window P"
    and wf: "queue_wf q" and m: "\<forall>k. malloc_ok k" and lk: "\<not> lock q"
  shows "\<exists>res q' l'.
           queue_gettask P malloc_ok task_overlap task_lock q l prev blocking
             = Some (Inr (res, q', l'))
         \<and> ring_ok P q' 0 \<and> ring_counts q' 0 \<and> queue_wf q' \<and> \<not> lock q' \<and> tasks q' = tasks q
         \<and> count_q q' + length (returned res) = count_q q + n
         \<and> heap_mset q' + mset (returned res) = heap_mset q + mset (pending P q n)
         \<and> ((\<forall>t. fst (task_lock l t)) \<longrightarrow> n = 0 \<longrightarrow> heap_refs_ok q \<longrightarrow> 0 < count_q q \<longrightarrow>
              res \<noteq> None)"
proof -
  let ?q = "q\<lparr>lock := True\<rparr>"
  obtain qd where d: "queue_get_incoming P malloc_ok ?q = Inr qd" "ring_ok P qd 0" "queue_wf qd"
    "first_incoming qd = first_incoming ?q + of_nat n"
    "last_incoming qd = last_incoming ?q"
    "count_incoming qd = count_incoming ?q - of_nat n"
    "count_q qd = count_q ?q + n" "lock qd = lock ?q" "tasks qd = tasks ?q"
    "heap_mset qd = heap_mset ?q + mset (pending P ?q n)"
    using queue_get_incoming_ring [of P ?q n malloc_ok] ring g wf m by auto
  have rc: "ring_counts qd 0"
    using d(4,5,6) cnt by (simp add: ring_counts_def)
  have len: "count_q qd \<le> length (tid qd)"
    using d(3) by (simp add: queue_wf_def)
  have acq: "queue_gettask P malloc_ok task_overlap task_lock q l prev blocking =
     Some (gettask_locked P malloc_ok task_overlap task_lock ?q l prev)"
    using queue_gettask_acquires [OF lk] .
  show ?thesis
  proof (cases "count_q qd = 0")
    case True
    then have "gettask_locked P malloc_ok task_overlap task_lock ?q l prev =
        Inr (None, qd\<lparr>lock := False\<rparr>, l)"
      using d(1) by (simp add: gettask_locked_def lock_unlock_blind_def)
    moreover have "\<not> 0 < count_q q" using True d(7) by simp
    ultimately show ?thesis
      using acq d rc True
      by (intro exI [of _ None] exI [of _ "qd\<lparr>lock := False\<rparr>"] exI [of _ l])
         (simp add: returned_def)
  next
    case False
    obtain tid1 ind1 l1 where
      s: "gettask_search (queue_search_window P) (task_overlap prev) task_lock (tid qd)
            (count_q qd) l = Inr (tid1, ind1, l1)"
      and sel: "sel_ok (tid qd) (count_q qd) tid1 ind1"
      using gettask_search_ok [OF W, of "task_overlap prev" task_lock "tid qd"
          "count_q qd" l] by blast
    have lkd: "lock qd" using d(8) by simp
    note r = gettask_locked_result [where task_overlap = task_overlap and prev = prev,
        OF d(1) lkd False s]
    show ?thesis
    proof (cases "0 \<le> ind1")
      case True
      then obtain j where j: "j < count_q qd" "ind1 = int j" "tid1 = tid qd ! j"
        using sel by (auto simp: sel_ok_def)
      let ?q' = "(gettask_remove qd j)\<lparr>lock := False\<rparr>"
      have res: "queue_gettask P malloc_ok task_overlap task_lock q l prev blocking =
          Some (Inr (Some tid1, ?q', l1))"
        using acq r True j by simp
      have ms: "add_mset tid1 (heap_mset (gettask_remove qd j)) = heap_mset qd"
        using gettask_remove_mset [OF j(1) len] j(3) by simp
      have wf': "queue_wf (gettask_remove qd j)"
        using d(3) by (auto simp: queue_wf_def gettask_remove_fields)
      have c: "count_q (gettask_remove qd j) + 1 = count_q qd"
        using j(1) by (simp add: gettask_remove_fields)
      show ?thesis
        using res d(2,7,9,10) rc wf' c ms [symmetric]
        by (intro exI [of _ "Some tid1"] exI [of _ ?q'] exI [of _ l1])
           (simp add: returned_def gettask_remove_fields)
    next
      case neg: False
      have res: "queue_gettask P malloc_ok task_overlap task_lock q l prev blocking =
          Some (Inr (None, qd\<lparr>lock := False\<rparr>, l1))"
        using acq r neg by simp
      have never: "\<not> ((\<forall>t. fst (task_lock l t)) \<and> n = 0 \<and> heap_refs_ok q)"
      proof
        assume a: "(\<forall>t. fst (task_lock l t)) \<and> n = 0 \<and> heap_refs_ok q"
        then have "heap_mset qd = heap_mset q" using d(10) by simp
        then have "set (take (count_q qd) (tid qd)) = set (take (count_q q) (tid q))"
          unfolding heap_mset_def by (metis set_mset_mset)
        then have refs: "\<forall>j < count_q qd. 0 \<le> tid qd ! j"
          using a len nth_in_take [of _ "count_q qd" "tid qd"] by (simp add: heap_refs_ok_def)
        have pure: "\<forall>t. \<not> fst (task_lock l t) \<longrightarrow> snd (task_lock l t) = l"
          using a by simp
        from gettask_search_finds [OF pure W refs s] neg a False
        show False by (auto simp: found_def)
      qed
      show ?thesis
        using res d rc never
        by (intro exI [of _ None] exI [of _ "qd\<lparr>lock := False\<rparr>"] exI [of _ l1])
           (auto simp: returned_def)
    qed
  qed
qed

lemma queue_init_ok:
  assumes "0 < queue_sizeinit P" "0 < queue_incoming_size P" "\<forall>k. malloc_ok k"
  shows "\<exists>q. queue_init P malloc_ok qtasks = Inr q \<and> ring_ok P q 0 \<and> ring_counts q 0 \<and>
           queue_wf q \<and> \<not> lock q \<and> tasks q = qtasks \<and> count_q q = 0 \<and> heap_ok q \<and>
           size_q q = queue_sizeinit P"
  using assms
  by (simp add: queue_init_def ring_ok_def ring_counts_def queue_wf_def heap_ok_def
      heap_on_def slot_def)

section \<open>Sequences of operations on one queue\<close>

lemma queue_run_conserves:
  "2 \<le> queue_sizegrow P \<Longrightarrow> 0 < queue_search_window P \<Longrightarrow> \<forall>k. malloc_ok k \<Longrightarrow>
   ring_ok P q n \<Longrightarrow> ring_counts q n \<Longrightarrow> queue_wf q \<Longrightarrow> \<not> lock q \<Longrightarrow>
   \<forall>t \<in> set (inserted ops). 0 \<le> t \<Longrightarrow>
   \<exists>q' l' rs' n'.
     queue_run P malloc_ok task_overlap task_lock ops q l rs = Some (Inr (q', l', rs'))
     \<and> ring_ok P q' n' \<and> ring_counts q' n' \<and> queue_wf q' \<and> \<not> lock q' \<and> tasks q' = tasks q
     \<and> length rs' + count_q q' + n' = length (inserted ops) + length rs + count_q q + n
     \<and> mset rs' + heap_mset q' + mset (pending P q' n')
         = mset (inserted ops) + mset rs + heap_mset q + mset (pending P q n)"
proof (induction ops arbitrary: q l rs n)
  case Nil
  then show ?case by simp
next
  case (Cons a ops)
  show ?case
  proof (cases a)
    case (Insert t)
    have t: "0 \<le> t" using Cons.prems(8) Insert by simp
    obtain q1 n1 where i: "queue_insert P malloc_ok q t = Some (Inr q1)" "ring_ok P q1 n1"
      "ring_counts q1 n1" "queue_wf q1" "\<not> lock q1" "tasks q1 = tasks q"
      "count_q q1 + n1 = count_q q + n + 1"
      "heap_mset q1 + mset (pending P q1 n1) = add_mset t (heap_mset q + mset (pending P q n))"
      using queue_insert_ring [OF Cons.prems(4,5,1,6,3,7) t] by blast
    have rest: "\<forall>t \<in> set (inserted ops). 0 \<le> t" using Cons.prems(8) Insert by simp
    obtain q' l' rs' n' where
      r: "queue_run P malloc_ok task_overlap task_lock ops q1 l rs = Some (Inr (q', l', rs'))"
      "ring_ok P q' n'" "ring_counts q' n'" "queue_wf q'" "\<not> lock q'" "tasks q' = tasks q1"
      "length rs' + count_q q' + n' = length (inserted ops) + length rs + count_q q1 + n1"
      "mset rs' + heap_mset q' + mset (pending P q' n')
         = mset (inserted ops) + mset rs + heap_mset q1 + mset (pending P q1 n1)"
      using Cons.IH [OF Cons.prems(1,2,3) i(2,3,4,5) rest, of l rs] by blast
    have "mset rs' + heap_mset q' + mset (pending P q' n')
         = mset (inserted (a # ops)) + mset rs + heap_mset q + mset (pending P q n)"
      using r(8) i(8) Insert by (simp add: add.assoc)
    then show ?thesis
      using r i(1,6,7) Insert
      by (intro exI [of _ q'] exI [of _ l'] exI [of _ rs'] exI [of _ n']) simp
  next
    case Drain
    obtain q1 where d: "queue_get_incoming P malloc_ok q = Inr q1" "ring_ok P q1 0" "queue_wf q1"
      "first_incoming q1 = first_incoming q + of_nat n"
      "last_incoming q1 = last_incoming q"
      "count_incoming q1 = count_incoming q - of_nat n"
      "count_q q1 = count_q q + n" "lock q1 = lock q" "tasks q1 = tasks q"
      "heap_mset q1 = heap_mset q + mset (pending P q n)"
      using queue_get_incoming_ring [OF Cons.prems(4,1,6,3)] by blast
    have rc: "ring_counts q1 0"
      using d(4,5,6) Cons.prems(5) by (simp add: ring_counts_def)
    have lk: "\<not> lock q1" using d(8) Cons.prems(7) by simp
    have rest: "\<forall>t \<in> set (inserted ops). 0 \<le> t" using Cons.prems(8) Drain by simp
    obtain q' l' rs' n' where
      r: "queue_run P malloc_ok task_overlap task_lock ops q1 l rs = Some (Inr (q', l', rs'))"
      "ring_ok P q' n'" "ring_counts q' n'" "queue_wf q'" "\<not> lock q'" "tasks q' = tasks q1"
      "length rs' + count_q q' + n' = length (inserted ops) + length rs + count_q q1 + 0"
      "mset rs' + heap_mset q' + mset (pending P q' n')
         = mset (inserted ops) + mset rs + heap_mset q1 + mset (pending P q1 0)"
      using Cons.IH [OF Cons.prems(1,2,3) d(2) rc d(3) lk rest, of l rs] by blast
    show ?thesis
      using r d(1,7,9,10) Drain
      by (intro exI [of _ q'] exI [of _ l'] exI [of _ rs'] exI [of _ n']) (simp add: add.assoc)
  next
    case (Gettask prev blocking)
    obtain res q1 l1 where
      g: "queue_gettask P malloc_ok task_overlap task_lock q l prev blocking
             = Some (Inr (res, q1, l1))"
      "ring_ok P q1 0" "ring_counts q1 0" "queue_wf q1" "\<not> lock q1" "tasks q1 = tasks q"
      "count_q q1 + length (returned res) = count_q q + n"
      "heap_mset q1 + mset (returned res) = heap_mset q + mset (pending P q n)"
      using queue_gettask_ring [OF Cons.prems(4,5,1,2,6,3,7),
          where task_overlap = task_overlap and task_lock = task_lock and l = l
            and prev = prev and blocking = blocking]
      by blast
    have rest: "\<forall>t \<in> set (inserted ops). 0 \<le> t" using Cons.prems(8) Gettask by simp
    obtain q' l' rs' n' where
      r: "queue_run P malloc_ok task_overlap task_lock ops q1 l1 (rs @ returned res)
            = Some (Inr (q', l', rs'))"
      "ring_ok P q' n'" "ring_counts q' n'" "queue_wf q'" "\<not> lock q'" "tasks q' = tasks q1"
      "length rs' + count_q q' + n'
         = length (inserted ops) + length (rs @ returned res) + count_q q1 + 0"
      "mset rs' + heap_mset q' + mset (pending P q' n')
         = mset (inserted ops) + mset (rs @ returned res) + heap_mset q1 + mset (pending P q1 0)"
      using Cons.IH [OF Cons.prems(1,2,3) g(2,3,4,5) rest, of l1 "rs @ returned res"] by blast
    have "mset rs' + heap_mset q' + mset (pending P q' n')
         = mset (inserted (a # ops)) + mset rs + heap_mset q + mset (pending P q n)"
      using r(8) g(8) Gettask by (simp add: ac_simps)
    moreover have "length rs' + count_q q' + n'
         = length (inserted (a # ops)) + length rs + count_q q + n"
      using r(7) g(7) Gettask by simp
    ultimately show ?thesis
      using r(1-6) g(1,6) Gettask
      by (intro exI [of _ q'] exI [of _ l'] exI [of _ rs'] exI [of _ n']) simp
  qed
qed

text \<open>
  C7. From a freshly initialised queue, with constants that are positive (a growth
  factor of at least 2) and an allocator that does not fail, every sequence of inserts
  of tasks of the task array, drains and \<open>queue_gettask\<close> calls runs to its end, and
  then the number of tasks inserted is the number of tasks that \<open>queue_gettask\<close>
  returned plus the number of heap entries plus the number of occupied slots of the
  incoming buffer, which is also what \<open>count_incoming\<close> holds. The same holds of the
  tasks themselves, as multisets.
\<close>

theorem tasks_conserved:
  assumes "0 < queue_sizeinit P" and "2 \<le> queue_sizegrow P"
    and "0 < queue_incoming_size P" and "0 < queue_search_window P"
    and "\<forall>k. malloc_ok k"
    and "\<forall>t \<in> set (inserted ops). 0 \<le> t"
  shows "\<exists>q0 q l' rs.
           queue_init P malloc_ok qtasks = Inr q0
         \<and> queue_run P malloc_ok task_overlap task_lock ops q0 l [] = Some (Inr (q, l', rs))
         \<and> length (inserted ops)
             = length rs + count_q q + incoming_pending (tid_incoming q)
         \<and> count_incoming q = of_nat (incoming_pending (tid_incoming q))
         \<and> mset (inserted ops)
             = mset rs + mset (take (count_q q) (tid q))
               + mset (pending P q (incoming_pending (tid_incoming q)))"
proof -
  obtain q0 where i: "queue_init P malloc_ok qtasks = Inr q0" "ring_ok P q0 0"
    "ring_counts q0 0" "queue_wf q0" "\<not> lock q0" "count_q q0 = 0"
    using queue_init_ok [OF assms(1,3,5), of qtasks] by blast
  obtain q l' rs n where
    r: "queue_run P malloc_ok task_overlap task_lock ops q0 l [] = Some (Inr (q, l', rs))"
    "ring_ok P q n" "ring_counts q n"
    "length rs + count_q q + n = length (inserted ops) + length ([]::int list) + count_q q0 + 0"
    "mset rs + heap_mset q + mset (pending P q n)
       = mset (inserted ops) + mset ([]::int list) + heap_mset q0 + mset (pending P q0 0)"
    using queue_run_conserves [OF assms(2,4,5) i(2,3,4,5) assms(6), of task_overlap task_lock l "[]"]
    by blast
  have n: "incoming_pending (tid_incoming q) = n"
    using ring_pending_count [OF r(2)] .
  have "heap_mset q0 = {#}" using i(6) by (simp add: heap_mset_def)
  then have "mset (inserted ops)
      = mset rs + mset (take (count_q q) (tid q)) + mset (pending P q n)"
    using r(5) by (simp add: heap_mset_def)
  then show ?thesis
    using i(1,6) r(1,3,4) n
    by (intro exI [of _ q0] exI [of _ q] exI [of _ l'] exI [of _ rs])
       (simp add: ring_counts_def)
qed

lemma example_run:
  "(case queue_init example_params malloc_always example_tasks of
      Inr q0 \<Rightarrow>
        (case queue_run example_params malloc_always overlap_zero lock_unless_busy
                [Insert 0, Insert 1, Gettask None False, Insert 2, Insert 3, Insert 1,
                 Insert 0, Insert 2, Gettask (Some 0) True, Drain, Insert 3]
                q0 [] [] of
           Some (Inr (q, l, rs)) \<Rightarrow>
             rs = [0, 2] \<and> count_q q = 5 \<and> incoming_pending (tid_incoming q) = 1
             \<and> count_incoming q = 1 \<and> size_q q = 8
         | _ \<Rightarrow> False)
    | _ \<Rightarrow> False)"
  by code_simp

theorem tasks_conserved_witness:
  "0 < queue_sizeinit example_params \<and> 2 \<le> queue_sizegrow example_params
   \<and> 0 < queue_incoming_size example_params \<and> 0 < queue_search_window example_params
   \<and> (\<exists>q0 q l' rs.
         queue_init example_params malloc_always example_tasks = Inr q0
       \<and> queue_run example_params malloc_always overlap_zero lock_unless_busy
            [Insert 0, Insert 1, Gettask None False, Insert 2, Insert 3, Insert 1,
             Insert 0, Insert 2, Gettask (Some 0) True, Drain, Insert 3]
            q0 [] [] = Some (Inr (q, l', rs))
       \<and> rs = [0, 2] \<and> count_q q = 5 \<and> incoming_pending (tid_incoming q) = 1
       \<and> 8 = length rs + count_q q + incoming_pending (tid_incoming q))"
proof -
  let ?ops = "[Insert 0, Insert 1, Gettask None False, Insert 2, Insert 3, Insert 1,
               Insert 0, Insert 2, Gettask (Some 0) True, Drain, Insert 3]"
  have a: "0 < queue_sizeinit example_params" and b: "2 \<le> queue_sizegrow example_params"
    and c: "0 < queue_incoming_size example_params"
    and d: "0 < queue_search_window example_params"
    by (simp_all add: example_params_def)
  have m: "\<forall>k. malloc_always k" by (simp add: malloc_always_def)
  have t: "\<forall>t \<in> set (inserted ?ops). 0 \<le> t" by simp
  from tasks_conserved [where task_overlap = overlap_zero and task_lock = lock_unless_busy
      and l = "[]" and qtasks = example_tasks, OF a b c d m t]
  obtain q0 q l' rs where
    r: "queue_init example_params malloc_always example_tasks = Inr q0"
    "queue_run example_params malloc_always overlap_zero lock_unless_busy ?ops q0 [] []
       = Some (Inr (q, l', rs))"
    "length (inserted ?ops) = length rs + count_q q + incoming_pending (tid_incoming q)"
    by blast
  have e: "rs = [0, 2] \<and> count_q q = 5 \<and> incoming_pending (tid_incoming q) = 1"
    using example_run r(1,2) by simp
  have "length (inserted ?ops) = 8" by simp
  then show ?thesis
    using a b c d r e by (intro conjI exI [of _ q0] exI [of _ q] exI [of _ l'] exI [of _ rs]) simp_all
qed

lemma heap_refs_ok_mset: "heap_refs_ok q \<longleftrightarrow> (\<forall>t \<in># heap_mset q. 0 \<le> t)"
  by (simp add: heap_refs_ok_def heap_mset_def)

lemma queue_run_insert_drain:
  "2 \<le> queue_sizegrow P \<Longrightarrow> \<forall>k. malloc_ok k \<Longrightarrow>
   ring_ok P q 0 \<Longrightarrow> ring_counts q 0 \<Longrightarrow> queue_wf q \<Longrightarrow> \<not> lock q \<Longrightarrow>
   \<forall>t \<in> set ts. 0 \<le> t \<Longrightarrow>
   \<exists>q'. queue_run P malloc_ok task_overlap task_lock (insert_drain ts) q l rs
           = Some (Inr (q', l, rs))
       \<and> ring_ok P q' 0 \<and> ring_counts q' 0 \<and> queue_wf q' \<and> \<not> lock q'
       \<and> tasks q' = tasks q \<and> count_q q' = count_q q + length ts
       \<and> heap_mset q' = heap_mset q + mset ts"
proof (induction ts arbitrary: q)
  case Nil
  then show ?case by simp
next
  case (Cons t ts)
  have t: "0 \<le> t" and rest: "\<forall>t \<in> set ts. 0 \<le> t" using Cons.prems(7) by simp_all
  obtain q1 n1 where i: "queue_insert P malloc_ok q t = Some (Inr q1)" "ring_ok P q1 n1"
    "ring_counts q1 n1" "queue_wf q1" "\<not> lock q1" "tasks q1 = tasks q"
    "heap_mset q1 + mset (pending P q1 n1) = add_mset t (heap_mset q + mset (pending P q 0))"
    "n1 = 1 \<and> count_q q1 = count_q q \<and> pending P q1 1 = [t]"
    using queue_insert_ring [OF Cons.prems(3,4,1,5,2,6) t] by auto
  have n1: "n1 = 1" and c1: "count_q q1 = count_q q" and p1: "pending P q1 1 = [t]"
    using i(8) by simp_all
  have m1: "heap_mset q1 = heap_mset q" using i(7) n1 p1 by simp
  obtain q2 where d: "queue_get_incoming P malloc_ok q1 = Inr q2" "ring_ok P q2 0" "queue_wf q2"
    "first_incoming q2 = first_incoming q1 + of_nat 1"
    "last_incoming q2 = last_incoming q1"
    "count_incoming q2 = count_incoming q1 - of_nat 1"
    "count_q q2 = count_q q1 + 1" "lock q2 = lock q1" "tasks q2 = tasks q1"
    "heap_mset q2 = heap_mset q1 + mset (pending P q1 1)"
    using queue_get_incoming_ring [OF _ Cons.prems(1) i(4) Cons.prems(2), of 1] i(2) n1 by auto
  have rc: "ring_counts q2 0"
    using d(4,5,6) i(3) n1 by (simp add: ring_counts_def)
  have lk: "\<not> lock q2" using d(8) i(5) by simp
  obtain q' where
    r: "queue_run P malloc_ok task_overlap task_lock (insert_drain ts) q2 l rs
          = Some (Inr (q', l, rs))"
    "ring_ok P q' 0" "ring_counts q' 0" "queue_wf q'" "\<not> lock q'"
    "tasks q' = tasks q2" "count_q q' = count_q q2 + length ts"
    "heap_mset q' = heap_mset q2 + mset ts"
    using Cons.IH [OF Cons.prems(1,2) d(2) rc d(3) lk rest] by blast
  show ?case
    using r i(1,6) d(1,7,9,10) c1 m1 p1
    by (intro exI [of _ q']) simp
qed

lemma queue_run_gettask_all:
  "2 \<le> queue_sizegrow P \<Longrightarrow> 0 < queue_search_window P \<Longrightarrow> \<forall>k. malloc_ok k \<Longrightarrow>
   \<forall>l t. fst (task_lock l t) \<Longrightarrow>
   ring_ok P q 0 \<Longrightarrow> ring_counts q 0 \<Longrightarrow> queue_wf q \<Longrightarrow> \<not> lock q \<Longrightarrow> heap_refs_ok q \<Longrightarrow>
   count_q q = N \<Longrightarrow>
   \<exists>q' l' rs'. queue_run P malloc_ok task_overlap task_lock (replicate N (Gettask prev blocking))
                  q l rs = Some (Inr (q', l', rs'))
       \<and> mset rs' = mset rs + heap_mset q \<and> tasks q' = tasks q \<and> count_q q' = 0"
proof (induction N arbitrary: q l rs)
  case 0
  then show ?case by (simp add: heap_mset_def)
next
  case (Suc N)
  have lockable: "\<forall>t. fst (task_lock l t)" using Suc.prems(4) by simp
  obtain res q1 l1 where
    g: "queue_gettask P malloc_ok task_overlap task_lock q l prev blocking
           = Some (Inr (res, q1, l1))"
    "ring_ok P q1 0" "ring_counts q1 0" "queue_wf q1" "\<not> lock q1" "tasks q1 = tasks q"
    "count_q q1 + length (returned res) = count_q q + 0"
    "heap_mset q1 + mset (returned res) = heap_mset q + mset (pending P q 0)"
    "res \<noteq> None"
    using queue_gettask_ring [OF Suc.prems(5,6,1,2,7,3,8),
        where task_overlap = task_overlap and task_lock = task_lock and l = l
          and prev = prev and blocking = blocking]
      lockable Suc.prems(9,10)
    by auto
  obtain t where res: "res = Some t" using g(9) by auto
  have c1: "count_q q1 = N" using g(7) res Suc.prems(10) by (simp add: returned_def)
  have m1: "add_mset t (heap_mset q1) = heap_mset q" using g(8) res by (simp add: returned_def)
  have refs: "heap_refs_ok q1"
    using Suc.prems(9) m1 unfolding heap_refs_ok_mset by (metis insert_iff set_mset_add_mset_insert)
  obtain q' l' rs' where
    r: "queue_run P malloc_ok task_overlap task_lock (replicate N (Gettask prev blocking))
          q1 l1 (rs @ returned res) = Some (Inr (q', l', rs'))"
    "mset rs' = mset (rs @ returned res) + heap_mset q1" "tasks q' = tasks q1" "count_q q' = 0"
    using Suc.IH [OF Suc.prems(1,2,3,4) g(2,3,4,5) refs c1] by blast
  have "mset rs' = mset rs + heap_mset q"
    using r(2) res m1 [symmetric] by (simp add: returned_def)
  then show ?case
    using r(1,3,4) g(1,6)
    by (intro exI [of _ q'] exI [of _ l'] exI [of _ rs']) simp
qed

lemma example_growth:
  "(case queue_init example_params malloc_always example_tasks of
      Inr q0 \<Rightarrow>
        (case queue_run example_params malloc_always overlap_zero lock_always
                (insert_drain [0, 1, 2, 3]) q0 () [] of
           Some (Inr (q, l, rs)) \<Rightarrow>
             rs = [] \<and> count_q q = 4 \<and> size_q q = 4 \<and> tid q = [2, 3, 0, 1] \<and> size_q q0 = 2
             \<and> (case queue_run example_params malloc_always overlap_zero lock_always
                       (replicate 4 (Gettask None True)) q () [] of
                  Some (Inr (q', l', rs')) \<Rightarrow> rs' = [2, 0, 3, 1] \<and> count_q q' = 0
                | _ \<Rightarrow> False)
         | _ \<Rightarrow> False)
    | _ \<Rightarrow> False)"
  by code_simp

text \<open>
  The scenario of the four tasks, evaluated: the tasks 0, 1, 2 and 3, of weights 5, 1, 9
  and 3, are inserted in this order into a freshly initialised queue and drained, and four
  \<open>queue_gettask\<close> calls return the tasks 2, 0, 3 and 1, with the small constants, where
  the search locks the best entry of a full window, and with the wide ones, where it ends
  in the fallback loop.
\<close>

lemma example_scenario:
  "(case queue_init example_params malloc_always example_tasks of
      Inr q0 \<Rightarrow>
        (case queue_run example_params malloc_always overlap_zero lock_always
                [Insert 0, Insert 1, Insert 2, Insert 3, Drain,
                 Gettask None True, Gettask None True, Gettask None True, Gettask None True]
                q0 () [] of
           Some (Inr (q, l, rs)) \<Rightarrow>
             rs = [2, 0, 3, 1] \<and> map (\<lambda>t. weight (tasks q t)) rs = [Float 9, Float 5, Float 3, Float 1]
             \<and> count_q q = 0
         | _ \<Rightarrow> False)
    | _ \<Rightarrow> False)
   \<and>
   (case queue_init wide_params malloc_always example_tasks of
      Inr q0 \<Rightarrow>
        (case queue_run wide_params malloc_always overlap_zero lock_always
                [Insert 0, Insert 1, Insert 2, Insert 3, Drain,
                 Gettask None False, Gettask None False, Gettask None False,
                 Gettask None False]
                q0 () [] of
           Some (Inr (q, l, rs)) \<Rightarrow>
             rs = [2, 0, 3, 1] \<and> map (\<lambda>t. weight (tasks q t)) rs = [Float 9, Float 5, Float 3, Float 1]
             \<and> count_q q = 0
         | _ \<Rightarrow> False)
    | _ \<Rightarrow> False)"
  by code_simp

section \<open>Equal overlaps and free task locks: the heaviest task first\<close>

lemma gettask_ind_max_equal:
  "\<forall>i < window_count. w_score (window ! i) = c \<Longrightarrow> window_count \<le> length window \<Longrightarrow>
   0 < window_count \<Longrightarrow> gettask_ind_max window window_count i 0 = Inr 0"
proof (induction window window_count i "0::nat" rule: gettask_ind_max.induct)
  case (1 window window_count i)
  show ?case
  proof (cases "i < window_count")
    case True
    have "\<not> w_score (window ! i) > w_score (window ! 0)"
      using "1.prems" True by simp
    moreover have ne: "window \<noteq> []" using "1.prems"(2,3) by auto
    moreover have "gettask_ind_max window window_count (i + 1) 0 = Inr 0"
      using "1.hyps" True "1.prems" calculation by simp
    ultimately show ?thesis
      using True "1.prems" by (subst gettask_ind_max.simps) simp
  next
    case False
    then show ?thesis by (subst gettask_ind_max.simps) simp
  qed
qed

lemma heap_on_root:
  fixes T :: "int \<Rightarrow> real task"
  assumes "heap_on T xs n"
  shows "k < n \<Longrightarrow> weight (T (xs ! k)) \<le> weight (T (xs ! 0))"
proof (induction k rule: less_induct)
  case (less k)
  show ?case
  proof (cases "k = 0")
    case True
    then show ?thesis by simp
  next
    case False
    then have p: "(k - 1) div 2 < k" by linarith
    have "weight (T (xs ! k)) \<le> weight (T (xs ! ((k - 1) div 2)))"
      using assms False less.prems by (simp add: heap_on_def)
    moreover have "weight (T (xs ! ((k - 1) div 2))) \<le> weight (T (xs ! 0))"
      using less.IH [OF p] p less.prems by simp
    ultimately show ?thesis by simp
  qed
qed


lemma gettask_scan_root:
  "\<forall>u. fst (task_lock l u) \<Longrightarrow> \<forall>u. overlap u = c \<Longrightarrow>
   0 < search_window \<Longrightarrow> length window = search_window \<Longrightarrow>
   window_count = min k search_window \<Longrightarrow> k \<le> old_qcount \<Longrightarrow> 0 < old_qcount \<Longrightarrow>
   (0 < window_count \<longrightarrow>
      window ! 0 = \<lparr>w_ind = 0, w_tid = qtid ! 0, w_score = overlap (qtid ! 0)\<rparr>) \<Longrightarrow>
   \<forall>i < window_count. w_score (window ! i) = c \<Longrightarrow>
   (\<exists>window' window_count'.
      gettask_scan search_window overlap task_lock qtid old_qcount k window window_count l
        = Inr (window', window_count', - 1, - 1, l)
      \<and> 0 < window_count' \<and> window_count' \<le> length window'
      \<and> window' ! 0 = \<lparr>w_ind = 0, w_tid = qtid ! 0, w_score = overlap (qtid ! 0)\<rparr>
      \<and> (\<forall>i < window_count'. w_score (window' ! i) = c))
   \<or> (\<exists>window' window_count'.
      gettask_scan search_window overlap task_lock qtid old_qcount k window window_count l
        = Inr (window', window_count', qtid ! 0, 0, snd (task_lock l (qtid ! 0))))"
proof (induction search_window overlap task_lock qtid old_qcount k window window_count l
    rule: gettask_scan.induct)
  case (1 search_window overlap task_lock qtid old_qcount k window window_count l)
  let ?e = "\<lparr>w_ind = int k, w_tid = qtid ! k, w_score = overlap (qtid ! k)\<rparr>"
  let ?root = "\<lparr>w_ind = 0, w_tid = qtid ! 0, w_score = overlap (qtid ! 0)\<rparr>"
  note lockable = "1.prems"(1) and ov = "1.prems"(2) and first = "1.prems"(8)
    and sc = "1.prems"(9)
  show ?case
  proof (cases "k < old_qcount")
    case False
    then have k: "k = old_qcount" using "1.prems"(6) by simp
    have wc: "0 < window_count" "window_count \<le> length window"
      using "1.prems"(3,4,5,7) k by simp_all
    have "gettask_scan search_window overlap task_lock qtid old_qcount k window window_count l
        = Inr (window, window_count, - 1, - 1, l)"
      using False by (subst gettask_scan.simps) simp
    then show ?thesis using wc first sc by blast
  next
    case kn: True
    show ?thesis
    proof (cases "k < search_window")
      case True
      have wc: "window_count = k" "window_count < length window"
        using True "1.prems" by simp_all
      let ?win = "window[window_count := ?e]"
      have f': "0 < window_count + 1 \<longrightarrow> ?win ! 0 = ?root"
      proof (cases "k = 0")
        case True
        then show ?thesis using wc by simp
      next
        case False
        then show ?thesis using first wc by simp
      qed
      have s': "\<forall>i < window_count + 1. w_score (?win ! i) = c"
        using sc ov wc by (simp add: nth_list_update less_Suc_eq)
      have unf: "gettask_scan search_window overlap task_lock qtid old_qcount k window
            window_count l
          = gettask_scan search_window overlap task_lock qtid old_qcount (k + 1) ?win
              (window_count + 1) l"
        using kn True wc by (subst gettask_scan.simps) simp
      have len: "length ?win = search_window" using "1.prems"(4) by simp
      have m: "window_count + 1 = min (k + 1) search_window" using wc True by simp
      have kk: "k + 1 \<le> old_qcount" using kn by simp
      show ?thesis
        unfolding unf
        using "1.IH"(1) [OF kn True wc(2) lockable ov "1.prems"(3) len m kk "1.prems"(7) f' s']
      by simp
    next
      case False
      have wc: "window_count = search_window" "0 < window_count" "window_count \<le> length window"
        using False "1.prems" by simp_all
      have m: "gettask_ind_max window window_count 1 0 = Inr 0"
        using gettask_ind_max_equal [OF sc wc(3,2)] .
      have w0: "window ! 0 = ?root" using first wc by simp
      have ne: "window \<noteq> []" using wc(2,3) by auto
      have "gettask_scan search_window overlap task_lock qtid old_qcount k window window_count l
          = Inr (window, window_count, qtid ! 0, 0, snd (task_lock l (qtid ! 0)))"
        using kn False m wc lockable w0 ne by (subst gettask_scan.simps) simp
      then show ?thesis by blast
    qed
  qed
qed

lemma gettask_fallback_root:
  assumes "\<forall>u. fst (task_lock l u)" "0 < window_count" "window_count \<le> length window"
    "window ! 0 = \<lparr>w_ind = 0, w_tid = t, w_score = s\<rparr>"
    "\<forall>i < window_count. w_score (window ! i) = c"
  shows "gettask_fallback task_lock window window_count t_in i_in l
           = Inr (t, 0, snd (task_lock l t))"
proof -
  have m: "gettask_ind_max window window_count 1 0 = Inr 0"
    using gettask_ind_max_equal [OF assms(5,3,2)] .
  have ne: "window \<noteq> []" using assms(2,3) by auto
  show ?thesis
    using assms(1,2,3,4) m ne by (subst gettask_fallback.simps) simp
qed

lemma gettask_search_root:
  assumes lockable: "\<forall>u. fst (task_lock l u)" and ov: "\<forall>u. overlap u = c"
    and W: "0 < search_window" and n: "0 < old_qcount" and ref: "0 \<le> qtid ! 0"
  shows "gettask_search search_window overlap task_lock qtid old_qcount l
           = Inr (qtid ! 0, 0, snd (task_lock l (qtid ! 0)))"
proof -
  let ?fresh = "replicate search_window \<lparr>w_ind = 0, w_tid = 0, w_score = Float 0\<rparr>"
  let ?root = "\<lparr>w_ind = 0, w_tid = qtid ! 0, w_score = overlap (qtid ! 0)\<rparr>"
  have l0: "length ?fresh = search_window" by simp
  have m0: "(0::nat) = min 0 search_window" by simp
  have f0: "(0::nat) < 0 \<longrightarrow> ?fresh ! 0 = ?root" by simp
  have s0: "\<forall>i < (0::nat). w_score (?fresh ! i) = c" by simp
  have k0: "(0::nat) \<le> old_qcount" by simp
  from gettask_scan_root [where task_lock = task_lock and l = l and overlap = overlap
      and qtid = qtid and window = ?fresh and k = 0 and window_count = 0,
      OF lockable ov W l0 m0 k0 n f0 s0]
  show ?thesis
  proof
    assume "\<exists>window' window_count'.
      gettask_scan search_window overlap task_lock qtid old_qcount 0 ?fresh 0 l
        = Inr (window', window_count', - 1, - 1, l)
      \<and> 0 < window_count' \<and> window_count' \<le> length window'
      \<and> window' ! 0 = ?root \<and> (\<forall>i < window_count'. w_score (window' ! i) = c)"
    then obtain window' wc' where
      s: "gettask_scan search_window overlap task_lock qtid old_qcount 0 ?fresh 0 l
        = Inr (window', wc', - 1, - 1, l)"
      and w: "0 < wc'" "wc' \<le> length window'" "window' ! 0 = ?root"
        "\<forall>i < wc'. w_score (window' ! i) = c"
      by blast
    show ?thesis
      using s gettask_fallback_root [where task_lock = task_lock and l = l
          and t_in = "- 1" and i_in = "- 1", OF lockable w]
      by (simp add: gettask_search_def)
  next
    assume "\<exists>window' window_count'.
      gettask_scan search_window overlap task_lock qtid old_qcount 0 ?fresh 0 l
        = Inr (window', window_count', qtid ! 0, 0, snd (task_lock l (qtid ! 0)))"
    then show ?thesis using ref by (auto simp: gettask_search_def)
  qed
qed

lemma queue_get_incoming_empty:
  assumes "ring_ok P q 0"
  shows "queue_get_incoming P malloc_ok q = Inr q"
proof -
  let ?ind = "unat (first_incoming q) mod queue_incoming_size P"
  have S: "0 < queue_incoming_size P" and len: "length (tid_incoming q) = queue_incoming_size P"
    using assms by (simp_all add: ring_ok_def)
  have "tid_incoming q ! ?ind = - 1"
    using assms S by (simp add: ring_ok_def)
  moreover have "\<not> length (tid_incoming q) \<le> ?ind"
    using S len by (simp add: not_le)
  ultimately show ?thesis
    using S by (subst queue_get_incoming.simps) (simp add: Let_def)
qed

text \<open>
  With free task locks and the same overlap for every task, \<open>queue_gettask\<close> on a
  drained queue takes the root of the heap, which no task in the heap outweighs.
\<close>

lemma queue_gettask_root:
  fixes q :: "real queue"
  assumes ring: "ring_ok P q 0" and cnt: "ring_counts q 0"
    and W: "0 < queue_search_window P"
    and wf: "queue_wf q" and lk: "\<not> lock q" and h: "heap_ok q" and refs: "heap_refs_ok q"
    and c: "0 < count_q q"
    and lockable: "\<forall>u. fst (task_lock l u)" and ov: "\<forall>u. task_overlap prev u = s"
  shows "\<exists>t q' l'.
           queue_gettask P malloc_ok task_overlap task_lock q l prev blocking
             = Some (Inr (Some t, q', l'))
         \<and> ring_ok P q' 0 \<and> ring_counts q' 0 \<and> queue_wf q' \<and> \<not> lock q' \<and> heap_ok q'
         \<and> heap_refs_ok q' \<and> tasks q' = tasks q \<and> count_q q' + 1 = count_q q
         \<and> add_mset t (heap_mset q') = heap_mset q
         \<and> (\<forall>u \<in># heap_mset q. weight (tasks q u) \<le> weight (tasks q t))"
proof -
  let ?q = "q\<lparr>lock := True\<rparr>"
  let ?t = "tid q ! 0"
  let ?l = "snd (task_lock l ?t)"
  let ?q' = "(gettask_remove ?q 0)\<lparr>lock := False\<rparr>"
  have len: "count_q q \<le> length (tid q)" using wf by (simp add: queue_wf_def)
  have d: "queue_get_incoming P malloc_ok ?q = Inr ?q"
    using queue_get_incoming_empty [of P ?q malloc_ok] ring by simp
  have ref: "0 \<le> tid ?q ! 0"
    using refs c len nth_in_take [of 0 "count_q q" "tid q"] by (simp add: heap_refs_ok_def)
  have s: "gettask_search (queue_search_window P) (task_overlap prev) task_lock (tid ?q)
             (count_q ?q) l = Inr (?t, 0, ?l)"
    using gettask_search_root [where task_lock = task_lock and l = l
        and overlap = "task_overlap prev" and qtid = "tid ?q", OF lockable ov W _ ref] c
    by simp
  have lkq: "lock ?q" and cq: "count_q ?q \<noteq> 0" using c by simp_all
  have r: "queue_gettask P malloc_ok task_overlap task_lock q l prev blocking
      = Some (Inr (Some ?t, ?q', ?l))"
    using queue_gettask_acquires [OF lk, of P malloc_ok task_overlap task_lock l prev blocking]
      gettask_locked_result [where task_overlap = task_overlap and prev = prev,
        OF d lkq cq s]
    by simp
  have c0: "0 < count_q ?q" and len0: "count_q ?q \<le> length (tid ?q)"
    using c len by simp_all
  have h0: "heap_ok ?q" using h by simp
  have h': "heap_ok ?q'"
    using gettask_remove_heap [OF h0 c0 len0] by simp
  have m': "add_mset ?t (heap_mset ?q') = heap_mset q"
    using gettask_remove_mset [OF c0 len0] by simp
  have wf': "queue_wf ?q'"
    using wf by (auto simp: queue_wf_def gettask_remove_fields)
  have refs': "heap_refs_ok ?q'"
    using refs m' unfolding heap_refs_ok_mset by (metis insert_iff set_mset_add_mset_insert)
  have top: "\<forall>u \<in># heap_mset q. weight (tasks q u) \<le> weight (tasks q ?t)"
  proof
    fix u assume "u \<in># heap_mset q"
    then obtain k where "k < count_q q" "u = tid q ! k"
      using in_take_nth [of u "count_q q" "tid q"] by (auto simp: heap_mset_def)
    then show "weight (tasks q u) \<le> weight (tasks q ?t)"
      using heap_on_root [of "tasks q" "tid q" "count_q q" k] h by (simp add: heap_ok_def)
  qed
  have "count_q ?q' + 1 = count_q q" using c by (simp add: gettask_remove_fields)
  then show ?thesis
    using r ring cnt wf' h' m' refs' top
    by (intro exI [of _ ?t] exI [of _ ?q'] exI [of _ ?l]) (simp add: gettask_remove_fields)
qed

lemma queue_run_gettask_sorted:
  "0 < queue_search_window P \<Longrightarrow> \<forall>l u. fst (task_lock l u) \<Longrightarrow>
   \<forall>u. task_overlap prev u = s \<Longrightarrow>
   ring_ok P q 0 \<Longrightarrow> ring_counts q 0 \<Longrightarrow> queue_wf q \<Longrightarrow> \<not> lock q \<Longrightarrow> heap_ok q \<Longrightarrow>
   heap_refs_ok q \<Longrightarrow> count_q q = N \<Longrightarrow>
   \<exists>q' l' ys. queue_run P malloc_ok task_overlap task_lock (replicate N (Gettask prev blocking))
                  q l rs = Some (Inr (q', l', rs @ ys))
       \<and> mset ys = heap_mset q \<and> tasks q' = tasks q \<and> count_q q' = 0
       \<and> sorted_wrt (\<lambda>a b. weight (tasks q b) \<le> weight (tasks q a)) ys"
  for q :: "real queue"
proof (induction N arbitrary: q l rs)
  case 0
  then show ?case by (simp add: heap_mset_def)
next
  case (Suc N)
  have lockable: "\<forall>u. fst (task_lock l u)" using Suc.prems(2) by simp
  have c: "0 < count_q q" using Suc.prems(10) by simp
  obtain t q1 l1 where
    g: "queue_gettask P malloc_ok task_overlap task_lock q l prev blocking
          = Some (Inr (Some t, q1, l1))"
    "ring_ok P q1 0" "ring_counts q1 0" "queue_wf q1" "\<not> lock q1" "heap_ok q1"
    "heap_refs_ok q1" "tasks q1 = tasks q" "count_q q1 + 1 = count_q q"
    "add_mset t (heap_mset q1) = heap_mset q"
    "\<forall>u \<in># heap_mset q. weight (tasks q u) \<le> weight (tasks q t)"
    using queue_gettask_root [where task_lock = task_lock and l = l
        and task_overlap = task_overlap and prev = prev and blocking = blocking
        and malloc_ok = malloc_ok,
        OF Suc.prems(4,5,1,6,7,8,9) c lockable Suc.prems(3)]
    by blast
  have c1: "count_q q1 = N" using g(9) Suc.prems(10) by simp
  obtain q' l' ys where
    r: "queue_run P malloc_ok task_overlap task_lock (replicate N (Gettask prev blocking))
          q1 l1 (rs @ [t]) = Some (Inr (q', l', (rs @ [t]) @ ys))"
    "mset ys = heap_mset q1" "tasks q' = tasks q1" "count_q q' = 0"
    "sorted_wrt (\<lambda>a b. weight (tasks q1 b) \<le> weight (tasks q1 a)) ys"
    using Suc.IH [OF Suc.prems(1,2,3) g(2,3,4,5,6,7) c1, of l1 "rs @ [t]"] by blast
  have below: "\<forall>u \<in> set ys. weight (tasks q u) \<le> weight (tasks q t)"
  proof
    fix u assume "u \<in> set ys"
    then have "u \<in># heap_mset q1" using r(2) by (metis set_mset_mset)
    then have "u \<in># heap_mset q" using g(10) by (metis insert_iff set_mset_add_mset_insert)
    then show "weight (tasks q u) \<le> weight (tasks q t)" using g(11) by simp
  qed
  have "sorted_wrt (\<lambda>a b. weight (tasks q b) \<le> weight (tasks q a)) (t # ys)"
    using r(5) below g(8) by simp
  moreover have "mset (t # ys) = heap_mset q" using r(2) g(10) by simp
  ultimately show ?case
    using r(1,3,4) g(1,8)
    by (intro exI [of _ q'] exI [of _ l'] exI [of _ "t # ys"]) (simp add: returned_def)
qed

section \<open>The scenario of the four tasks\<close>

lemma queue_run_append:
  "queue_run P malloc_ok task_overlap task_lock ops q l rs = Some (Inr (q1, l1, rs1)) \<Longrightarrow>
   queue_run P malloc_ok task_overlap task_lock (ops @ ops') q l rs
     = queue_run P malloc_ok task_overlap task_lock ops' q1 l1 rs1"
proof (induction ops arbitrary: q l rs)
  case Nil
  then show ?case by simp
next
  case (Cons a ops)
  show ?case
  proof (cases a)
    case (Insert t)
    then show ?thesis
      using Cons.prems Cons.IH by (simp split: option.splits sum.splits)
  next
    case Drain
    then show ?thesis
      using Cons.prems Cons.IH by (simp split: option.splits sum.splits)
  next
    case (Gettask prev blocking)
    then show ?thesis
      using Cons.prems Cons.IH by (simp split: option.splits sum.splits prod.splits)
  qed
qed

lemma queue_run_inserts:
  "2 \<le> queue_sizegrow P \<Longrightarrow> \<forall>k. malloc_ok k \<Longrightarrow>
   ring_ok P q n \<Longrightarrow> ring_counts q n \<Longrightarrow> queue_wf q \<Longrightarrow> \<not> lock q \<Longrightarrow> heap_ok q \<Longrightarrow>
   \<forall>t \<in> set ts. 0 \<le> t \<Longrightarrow>
   \<exists>q' n'. queue_run P malloc_ok task_overlap task_lock (map Insert ts) q l rs
           = Some (Inr (q', l, rs))
       \<and> ring_ok P q' n' \<and> ring_counts q' n' \<and> queue_wf q' \<and> \<not> lock q' \<and> heap_ok q'
       \<and> tasks q' = tasks q \<and> count_q q' + n' = count_q q + n + length ts
       \<and> heap_mset q' + mset (pending P q' n')
           = heap_mset q + mset (pending P q n) + mset ts"
  for q :: "real queue"
proof (induction ts arbitrary: q n)
  case Nil
  then show ?case by auto
next
  case (Cons t ts)
  have t: "0 \<le> t" and rest: "\<forall>t \<in> set ts. 0 \<le> t" using Cons.prems(8) by simp_all
  obtain q1 n1 where i: "queue_insert P malloc_ok q t = Some (Inr q1)" "ring_ok P q1 n1"
    "ring_counts q1 n1" "queue_wf q1" "\<not> lock q1" "tasks q1 = tasks q"
    "count_q q1 + n1 = count_q q + n + 1"
    "heap_mset q1 + mset (pending P q1 n1) = add_mset t (heap_mset q + mset (pending P q n))"
    using queue_insert_ring [OF Cons.prems(3,4,1,5,2,6) t] by auto
  have h1: "heap_ok q1"
    using queue_insert_ok [OF Cons.prems(1,5,7) i(1)] by simp
  obtain q' n' where
    r: "queue_run P malloc_ok task_overlap task_lock (map Insert ts) q1 l rs
          = Some (Inr (q', l, rs))"
    "ring_ok P q' n'" "ring_counts q' n'" "queue_wf q'" "\<not> lock q'" "heap_ok q'"
    "tasks q' = tasks q1" "count_q q' + n' = count_q q1 + n1 + length ts"
    "heap_mset q' + mset (pending P q' n')
       = heap_mset q1 + mset (pending P q1 n1) + mset ts"
    using Cons.IH [OF Cons.prems(1,2) i(2,3,4,5) h1 rest] by blast
  show ?case
    using r i(1,6,7,8)
    by (intro exI [of _ q'] exI [of _ n']) simp
qed

lemma queue_run_drain:
  fixes q :: "real queue"
  assumes g: "2 \<le> queue_sizegrow P" and m: "\<forall>k. malloc_ok k"
    and ring: "ring_ok P q n" and cnt: "ring_counts q n" and wf: "queue_wf q"
    and h: "heap_ok q"
  shows "\<exists>q'. queue_run P malloc_ok task_overlap task_lock [Drain] q l rs
           = Some (Inr (q', l, rs))
       \<and> ring_ok P q' 0 \<and> ring_counts q' 0 \<and> queue_wf q' \<and> lock q' = lock q \<and> heap_ok q'
       \<and> tasks q' = tasks q \<and> count_q q' = count_q q + n
       \<and> heap_mset q' = heap_mset q + mset (pending P q n)"
proof -
  obtain q2 where d: "queue_get_incoming P malloc_ok q = Inr q2" "ring_ok P q2 0" "queue_wf q2"
    "first_incoming q2 = first_incoming q + of_nat n"
    "last_incoming q2 = last_incoming q"
    "count_incoming q2 = count_incoming q - of_nat n"
    "count_q q2 = count_q q + n" "lock q2 = lock q" "tasks q2 = tasks q"
    "heap_mset q2 = heap_mset q + mset (pending P q n)"
    using queue_get_incoming_ring [OF ring g wf m] by auto
  have rc: "ring_counts q2 0"
    using d(4,5,6) cnt by (simp add: ring_counts_def)
  have h2: "heap_ok q2"
    using queue_get_incoming_ok [OF g wf h d(1)] by simp
  show ?thesis
    using d rc h2 by (intro exI [of _ q2]) simp
qed

lemma sorted_wrt_unique:
  fixes f :: "'a \<Rightarrow> real"
  assumes "sorted_wrt (\<lambda>a b. f b \<le> f a) ys" and "sorted_wrt (\<lambda>a b. f b \<le> f a) zs"
    and "mset ys = mset zs" and "inj_on f (set zs)"
  shows "ys = zs"
proof -
  let ?g = "\<lambda>x. - f x"
  have sy: "sorted (map ?g ys)" and sz: "sorted (map ?g zs)"
    using assms(1,2) by (simp_all add: sorted_map)
  have "mset (map ?g ys) = mset (map ?g zs)" using assms(3) by simp
  then have e: "map ?g ys = map ?g zs"
    using sy sz properties_for_sort by metis
  have s: "set ys = set zs" using assms(3) by (metis set_mset_mset)
  have "inj_on ?g (set ys \<union> set zs)"
    using assms(4) s by (simp add: inj_on_def)
  then show ?thesis using e inj_on_map_eq_map by blast
qed

text \<open>
  The scenario of the four tasks, for all constants, on weights that are numbers.
\<close>

lemma scenario_order_real:
  fixes qtasks :: "int \<Rightarrow> real task"
  assumes "0 < queue_sizeinit P" and "2 \<le> queue_sizegrow P"
    and "0 < queue_incoming_size P" and "0 < queue_search_window P"
    and m: "\<forall>k. malloc_ok k"
    and lockable: "\<forall>l u. fst (task_lock l u)"
    and ov: "\<forall>u. task_overlap None u = s"
    and w: "weight (qtasks 0) = 5" "weight (qtasks 1) = 1" "weight (qtasks 2) = 9"
      "weight (qtasks 3) = 3"
  shows "\<exists>q0 q l'.
           queue_init P malloc_ok qtasks = Inr q0
         \<and> queue_run P malloc_ok task_overlap task_lock
              ([Insert 0, Insert 1, Insert 2, Insert 3, Drain]
               @ replicate 4 (Gettask None blocking)) q0 l []
             = Some (Inr (q, l', [2, 0, 3, 1]))
         \<and> map (\<lambda>t. weight (tasks q t)) [2, 0, 3, 1] = [9, 5, 3, 1]
         \<and> count_q q = 0"
proof -
  let ?run = "queue_run P malloc_ok task_overlap task_lock"
  let ?f = "\<lambda>t. weight (qtasks t)"
  obtain q0 where i: "queue_init P malloc_ok qtasks = Inr q0" "ring_ok P q0 0"
    "ring_counts q0 0" "queue_wf q0" "\<not> lock q0" "tasks q0 = qtasks" "count_q q0 = 0"
    "heap_ok q0"
    using queue_init_ok [OF assms(1,3) m, of qtasks] by blast
  have m0: "heap_mset q0 = {#}" using i(7) by (simp add: heap_mset_def)
  have p0: "pending P q0 0 = []" by (simp add: pending_def)
  have ts: "\<forall>t \<in> set [0, 1, 2, 3 :: int]. 0 \<le> t" by simp
  obtain q1 n1 where
    a: "?run (map Insert [0, 1, 2, 3]) q0 l [] = Some (Inr (q1, l, []))"
    "ring_ok P q1 n1" "ring_counts q1 n1" "queue_wf q1" "\<not> lock q1" "heap_ok q1"
    "tasks q1 = tasks q0" "count_q q1 + n1 = count_q q0 + 0 + length [0, 1, 2, 3 :: int]"
    "heap_mset q1 + mset (pending P q1 n1)
       = heap_mset q0 + mset (pending P q0 0) + mset [0, 1, 2, 3]"
    using queue_run_inserts [OF assms(2) m i(2,3,4,5,8) ts, of task_overlap task_lock l "[]"]
    by blast
  obtain q2 where
    d: "?run [Drain] q1 l [] = Some (Inr (q2, l, []))"
    "ring_ok P q2 0" "ring_counts q2 0" "queue_wf q2" "lock q2 = lock q1" "heap_ok q2"
    "tasks q2 = tasks q1" "count_q q2 = count_q q1 + n1"
    "heap_mset q2 = heap_mset q1 + mset (pending P q1 n1)"
    using queue_run_drain [OF assms(2) m a(2,3,4,6), of task_overlap task_lock l "[]"]
    by blast
  have m2: "heap_mset q2 = mset [0, 1, 2, 3]" using d(9) a(9) m0 p0 by simp
  have c2: "count_q q2 = 4" using d(8) a(8) i(7) by simp
  have lk2: "\<not> lock q2" using d(5) a(5) by simp
  have refs: "heap_refs_ok q2" unfolding heap_refs_ok_mset m2 by simp
  have t2: "tasks q2 = qtasks" using d(7) a(7) i(6) by simp
  obtain q l' ys where
    r: "?run (replicate 4 (Gettask None blocking)) q2 l [] = Some (Inr (q, l', [] @ ys))"
    "mset ys = heap_mset q2" "tasks q = tasks q2" "count_q q = 0"
    "sorted_wrt (\<lambda>a b. weight (tasks q2 b) \<le> weight (tasks q2 a)) ys"
    using queue_run_gettask_sorted [where task_lock = task_lock
        and task_overlap = task_overlap and prev = None and malloc_ok = malloc_ok
        and blocking = blocking and l = l and rs = "[]",
        OF assms(4) lockable ov d(2,3,4) lk2 d(6) refs c2]
    by blast
  have s1: "sorted_wrt (\<lambda>a b. ?f b \<le> ?f a) ys" using r(5) t2 by simp
  have s2: "sorted_wrt (\<lambda>a b. ?f b \<le> ?f a) [2, 0, 3, 1]" using w by simp
  have inj: "inj_on ?f (set [2, 0, 3, 1])" using w by (simp add: inj_on_def)
  have "mset ys = mset [2, 0, 3, 1 :: int]" using r(2) m2 by simp
  then have ys: "ys = [2, 0, 3, 1]"
    using sorted_wrt_unique [OF s1 s2 _ inj] by simp
  have "?run (map Insert [0, 1, 2, 3] @ [Drain]) q0 l [] = Some (Inr (q2, l, []))"
    using queue_run_append [OF a(1), of "[Drain]"] d(1) by simp
  then have "?run ((map Insert [0, 1, 2, 3] @ [Drain]) @ replicate 4 (Gettask None blocking))
      q0 l [] = Some (Inr (q, l', ys))"
    using queue_run_append [of P malloc_ok task_overlap task_lock
        "map Insert [0, 1, 2, 3] @ [Drain]" q0 l "[]" q2 l "[]"
        "replicate 4 (Gettask None blocking)"] r(1)
    by simp
  then have run: "?run ([Insert 0, Insert 1, Insert 2, Insert 3, Drain]
      @ replicate 4 (Gettask None blocking)) q0 l [] = Some (Inr (q, l', [2, 0, 3, 1]))"
    using ys by simp
  have "map (\<lambda>t. weight (tasks q t)) [2, 0, 3, 1] = [9, 5, 3, 1]"
    using r(3) t2 w by simp
  then show ?thesis
    using i(1) run r(4) by (intro exI [of _ q0] exI [of _ q] exI [of _ l']) simp
qed

section \<open>Weights that are not NaN: the program on real weights\<close>

text \<open>
  On weights other than NaN the comparisons of floats are the comparisons of the numbers
  they stand for. So the heap moves and, on a queue where no task in the heap or in the
  incoming buffer has the weight NaN, the queue operations do on the floats what they do
  on these numbers: they commute with \<open>real_queue\<close>, and they keep the weights in the queue
  free of NaN as long as no task of weight NaN is inserted.
\<close>

lemma float_val_less: "a \<noteq> NaN \<Longrightarrow> b \<noteq> NaN \<Longrightarrow> float_val a < float_val b \<longleftrightarrow> a < b"
  by (cases a; cases b) simp_all

lemma float_val_le: "a \<noteq> NaN \<Longrightarrow> b \<noteq> NaN \<Longrightarrow> float_val a \<le> float_val b \<longleftrightarrow> a \<le> b"
  by (cases a; cases b) simp_all

lemma weight_real_tasks [simp]: "weight (real_tasks T t) = float_val (weight (T t))"
  by (simp add: real_tasks_def)

lemma real_queue_fields [simp]:
  "lock (real_queue q) = lock q"
  "size_q (real_queue q) = size_q q"
  "count_q (real_queue q) = count_q q"
  "tasks (real_queue q) = real_tasks (tasks q)"
  "tid (real_queue q) = tid q"
  "tid_incoming (real_queue q) = tid_incoming q"
  "first_incoming (real_queue q) = first_incoming q"
  "last_incoming (real_queue q) = last_incoming q"
  "count_incoming (real_queue q) = count_incoming q"
  by (simp_all add: real_queue_def)

lemma real_queue_update [simp]:
  "real_queue (q\<lparr>lock := b\<rparr>) = (real_queue q)\<lparr>lock := b\<rparr>"
  "real_queue (q\<lparr>size_q := n\<rparr>) = (real_queue q)\<lparr>size_q := n\<rparr>"
  "real_queue (q\<lparr>count_q := n\<rparr>) = (real_queue q)\<lparr>count_q := n\<rparr>"
  "real_queue (q\<lparr>tid := xs\<rparr>) = (real_queue q)\<lparr>tid := xs\<rparr>"
  "real_queue (q\<lparr>tid_incoming := xs\<rparr>) = (real_queue q)\<lparr>tid_incoming := xs\<rparr>"
  "real_queue (q\<lparr>first_incoming := a\<rparr>) = (real_queue q)\<lparr>first_incoming := a\<rparr>"
  "real_queue (q\<lparr>last_incoming := a\<rparr>) = (real_queue q)\<lparr>last_incoming := a\<rparr>"
  "real_queue (q\<lparr>count_incoming := a\<rparr>) = (real_queue q)\<lparr>count_incoming := a\<rparr>"
  by (simp_all add: real_queue_def)

lemma bubble_up_loop_real:
  "i < n \<Longrightarrow> n \<le> length xs \<Longrightarrow> \<forall>k < n. weight (T (xs ! k)) \<noteq> NaN \<Longrightarrow> w \<noteq> NaN \<Longrightarrow>
   bubble_up_loop (real_tasks T) (float_val w) xs i = bubble_up_loop T w xs i"
proof (induction T w xs i rule: bubble_up_loop.induct)
  case (1 T w xs i)
  let ?p = "(i - 1) div 2"
  show ?case
  proof (cases "i > 0")
    case False
    then show ?thesis by (subst (1 2) bubble_up_loop.simps) simp
  next
    case True
    then have pi: "?p < i" by linarith
    have c: "float_val w < float_val (weight (T (xs ! ?p))) \<longleftrightarrow> w < weight (T (xs ! ?p))"
      using float_val_less [of w "weight (T (xs ! ?p))"] "1.prems" pi by simp
    show ?thesis
    proof (cases "w < weight (T (xs ! ?p))")
      case lt: True
      then show ?thesis using True c by (subst (1 2) bubble_up_loop.simps) (simp add: Let_def)
    next
      case ge: False
      let ?ys = "xs[i := xs ! ?p, ?p := xs ! i]"
      have "\<forall>k < n. weight (T (?ys ! k)) \<noteq> NaN"
        using "1.prems" pi by (simp add: nth_list_update)
      then have "bubble_up_loop (real_tasks T) (float_val w) ?ys ?p = bubble_up_loop T w ?ys ?p"
        using "1.IH" [OF True refl ge] "1.prems" pi by simp
      then show ?thesis
        using True ge c by (subst (1 2) bubble_up_loop.simps) (simp add: Let_def)
    qed
  qed
qed

lemma sift_down_child_real:
  "2 * i + 1 < n \<Longrightarrow> \<forall>k < n. weight (T (xs ! k)) \<noteq> NaN \<Longrightarrow>
   sift_down_child (real_tasks T) xs n i = sift_down_child T xs n i"
  by (auto simp: sift_down_child_def Let_def float_val_less)

lemma sift_down_loop_real:
  "i < n \<Longrightarrow> n \<le> length xs \<Longrightarrow> \<forall>k < n. weight (T (xs ! k)) \<noteq> NaN \<Longrightarrow> w \<noteq> NaN \<Longrightarrow>
   sift_down_loop (real_tasks T) (float_val w) xs n i = sift_down_loop T w xs n i"
proof (induction T w xs n i rule: sift_down_loop.induct)
  case (1 T w xs n i)
  show ?case
  proof (cases "2 * i + 1 \<ge> n")
    case True
    then show ?thesis by (subst (1 2) sift_down_loop.simps) simp
  next
    case False
    let ?c = "sift_down_child T xs n i"
    have ch: "sift_down_child (real_tasks T) xs n i = ?c"
      using sift_down_child_real [of i n T xs] False "1.prems" by simp
    have r: "i < ?c" "?c < n"
      using sift_down_child_range [of i n T xs] False by simp_all
    have c: "float_val w < float_val (weight (T (xs ! ?c))) \<longleftrightarrow> w < weight (T (xs ! ?c))"
      using float_val_less [of w "weight (T (xs ! ?c))"] "1.prems" r by simp
    show ?thesis
    proof (cases "weight (T (xs ! ?c)) > w")
      case gt: True
      let ?ys = "xs[?c := xs ! i, i := xs ! ?c]"
      have "\<forall>k < n. weight (T (?ys ! k)) \<noteq> NaN"
        using "1.prems" r by (simp add: nth_list_update)
      then have "sift_down_loop (real_tasks T) (float_val w) ?ys n ?c = sift_down_loop T w ?ys n ?c"
        using "1.IH" [OF False refl gt] "1.prems" r by simp
      then show ?thesis
        using False gt c ch by (subst (1 2) sift_down_loop.simps) (simp add: Let_def)
    next
      case ngt: False
      then show ?thesis
        using False c ch by (subst (1 2) sift_down_loop.simps) (simp add: Let_def)
    qed
  qed
qed

lemma take_not_nan:
  "n \<le> length xs \<Longrightarrow>
   (\<forall>t \<in> set (take n xs). weight (T t) \<noteq> NaN) \<longleftrightarrow> (\<forall>k < n. weight (T (xs ! k)) \<noteq> NaN)"
  using nth_in_take [of _ n xs] in_take_nth [of _ n xs] by blast

lemma queue_bubble_up_real:
  assumes "ind < n" "n \<le> length (tid q)"
    and "\<forall>t \<in> set (take n (tid q)). weight (tasks q t) \<noteq> NaN"
  shows "queue_bubble_up (real_queue q) ind
           = (real_queue (fst (queue_bubble_up q ind)), snd (queue_bubble_up q ind))"
proof -
  have f: "\<forall>k < n. weight (tasks q (tid q ! k)) \<noteq> NaN"
    using assms(2,3) take_not_nan [of n "tid q" "tasks q"] by simp
  then have w: "weight (tasks q (tid q ! ind)) \<noteq> NaN" using assms(1) by simp
  show ?thesis
    using bubble_up_loop_real [OF assms(1,2) f w]
    by (simp add: queue_bubble_up_def Let_def case_prod_beta)
qed

lemma queue_sift_down_real:
  assumes "ind < count_q q" "count_q q \<le> length (tid q)"
    and "\<forall>t \<in> set (take (count_q q) (tid q)). weight (tasks q t) \<noteq> NaN"
  shows "queue_sift_down (real_queue q) ind
           = (real_queue (fst (queue_sift_down q ind)), snd (queue_sift_down q ind))"
proof -
  have f: "\<forall>k < count_q q. weight (tasks q (tid q ! k)) \<noteq> NaN"
    using assms(2,3) take_not_nan [of "count_q q" "tid q" "tasks q"] by simp
  then have w: "weight (tasks q (tid q ! ind)) \<noteq> NaN" using assms(1) by simp
  show ?thesis
    using sift_down_loop_real [OF assms(1,2) f w]
    by (simp add: queue_sift_down_def Let_def case_prod_beta)
qed

lemma queue_bubble_up_set:
  "ind < n \<Longrightarrow> n \<le> length (tid q) \<Longrightarrow>
   set (take n (tid (fst (queue_bubble_up q ind)))) = set (take n (tid q))"
  using bubble_up_loop_mset [of ind n "tid q" "tasks q" "weight (tasks q (tid q ! ind))"]
  by (simp add: queue_bubble_up_def Let_def case_prod_beta) (metis set_mset_mset)

lemma queue_sift_down_set:
  "ind < count_q q \<Longrightarrow> count_q q \<le> length (tid q) \<Longrightarrow>
   set (take (count_q q) (tid (fst (queue_sift_down q ind)))) = set (take (count_q q) (tid q))"
  using sift_down_loop_mset [of ind "count_q q" "tid q" "tasks q" "weight (tasks q (tid q ! ind))"]
  by (simp add: queue_sift_down_def Let_def case_prod_beta) (metis set_mset_mset)

lemma gettask_remove_real:
  assumes ind: "ind < count_q q" and len: "count_q q \<le> length (tid q)"
    and f: "\<forall>t \<in> set (take (count_q q) (tid q)). weight (tasks q t) \<noteq> NaN"
  shows "gettask_remove (real_queue q) ind = real_queue (gettask_remove q ind)"
proof (cases "ind < count_q q - 1")
  case False
  then show ?thesis by (simp add: gettask_remove_def Let_def)
next
  case True
  define n where "n = count_q q - 1"
  define q2 where "q2 = q\<lparr>count_q := n, tid := (tid q)[ind := tid q ! n]\<rparr>"
  have n: "ind < n" "n < count_q q" "n \<le> length (tid q2)" "count_q q2 = n"
    using True ind len by (simp_all add: n_def q2_def)
  have fk: "\<forall>k < count_q q. weight (tasks q (tid q ! k)) \<noteq> NaN"
    using len f take_not_nan [of "count_q q" "tid q" "tasks q"] by simp
  have "\<forall>k < n. weight (tasks q2 (tid q2 ! k)) \<noteq> NaN"
    using fk n(1,2) len by (simp add: q2_def nth_list_update)
  then have f2: "\<forall>t \<in> set (take n (tid q2)). weight (tasks q2 t) \<noteq> NaN"
    using take_not_nan [of n "tid q2" "tasks q2"] n(3) by simp
  have b: "queue_bubble_up (real_queue q2) ind
             = (real_queue (fst (queue_bubble_up q2 ind)), snd (queue_bubble_up q2 ind))"
    using queue_bubble_up_real [OF n(1,3) f2] .
  define q3 where "q3 = fst (queue_bubble_up q2 ind)"
  define i1 where "i1 = snd (queue_bubble_up q2 ind)"
  have i1: "i1 < count_q q3"
    using bubble_up_loop_le [of "tasks q2" "weight (tasks q2 (tid q2 ! ind))" "tid q2" ind] n
    by (simp add: i1_def q3_def queue_bubble_up_def Let_def case_prod_beta)
  have l3: "count_q q3 \<le> length (tid q3)"
    using n by (simp add: q3_def queue_bubble_up_def Let_def case_prod_beta)
  have c3: "count_q q3 = n" using n by (simp add: q3_def)
  have "set (take n (tid q3)) = set (take n (tid q2))"
    using queue_bubble_up_set [OF n(1,3)] by (simp add: q3_def)
  then have f3: "\<forall>t \<in> set (take (count_q q3) (tid q3)). weight (tasks q3 t) \<noteq> NaN"
    using f2 c3 by (simp add: q3_def)
  have s: "queue_sift_down (real_queue q3) i1
             = (real_queue (fst (queue_sift_down q3 i1)), snd (queue_sift_down q3 i1))"
    using queue_sift_down_real [OF i1 l3 f3] .
  have "gettask_remove q ind = fst (queue_sift_down q3 i1)"
    using True
    by (simp add: gettask_remove_def Let_def case_prod_beta n_def q2_def q3_def i1_def)
  moreover have "gettask_remove (real_queue q) ind = fst (queue_sift_down (real_queue q3) i1)"
    using True b
    by (simp add: gettask_remove_def Let_def case_prod_beta n_def q2_def q3_def i1_def)
  ultimately show ?thesis using s by simp
qed

lemma gettask_remove_weights:
  assumes ind: "ind < count_q q" and len: "count_q q \<le> length (tid q)" and ok: "weights_ok q"
  shows "weights_ok (gettask_remove q ind)"
proof -
  have "set_mset (heap_mset (gettask_remove q ind)) \<subseteq> set_mset (heap_mset q)"
    using gettask_remove_mset [OF ind len]
    by (metis insert_iff set_mset_add_mset_insert subsetI)
  then show ?thesis
    using ok by (auto simp: weights_ok_def heap_mset_def gettask_remove_fields)
qed

lemma queue_wf_real [simp]: "queue_wf (real_queue q) = queue_wf q"
  by (simp add: queue_wf_def)

lemma get_incoming_round_weights:
  assumes g: "2 \<le> queue_sizegrow P" and wf: "queue_wf q" and ok: "weights_ok q"
    and b: "ind < length (tid_incoming q)" and p: "0 \<le> tid_incoming q ! ind"
    and r: "get_incoming_round P malloc_ok q ind = Inr q'"
  shows "weights_ok q'"
proof -
  note f = get_incoming_round_fields [OF r] get_incoming_round_incoming [OF r]
  have "set (take (count_q q') (tid q')) =
          insert (tid_incoming q ! ind) (set (take (count_q q) (tid q)))"
    using get_incoming_round_heap(2) [OF g wf r] by (metis set_mset_add_mset_insert set_mset_mset)
  moreover have "weight (tasks q (tid_incoming q ! ind)) \<noteq> NaN"
    using ok b p by (simp add: weights_ok_def)
  moreover have "set (tid_incoming q') \<subseteq> insert (- 1) (set (tid_incoming q))"
    using f(9) by (simp add: set_update_subset_insert)
  ultimately show ?thesis
    using ok f(2) by (auto simp: weights_ok_def)
qed

lemma get_incoming_round_real:
  assumes g: "2 \<le> queue_sizegrow P" and wf: "queue_wf q" and ok: "weights_ok q"
    and b: "ind < length (tid_incoming q)" and p: "0 \<le> tid_incoming q ! ind"
  shows "get_incoming_round P malloc_ok (real_queue q) ind
           = map_sum id real_queue (get_incoming_round P malloc_ok q ind)"
proof (cases "count_q q = size_q q \<and> \<not> malloc_ok (size_q q * queue_sizegrow P)")
  case True
  then show ?thesis by (simp add: get_incoming_round_def queue_grow_def Let_def)
next
  case False
  define n where "n = count_q q"
  define q1 where "q1 = q\<lparr>tid_incoming := (tid_incoming q)[ind := - 1],
      first_incoming := first_incoming q + 1\<rparr>"
  define q2 where "q2 = (if count_q q = size_q q
      then q1\<lparr>size_q := size_q q * queue_sizegrow P,
               tid := take (count_q q) (tid q) @
                        replicate (size_q q * queue_sizegrow P - count_q q) 0\<rparr>
      else q1)"
  define q3 where "q3 = q2\<lparr>tid := (tid q2)[count_q q2 := tid_incoming q ! ind],
      count_q := count_q q2 + 1, count_incoming := count_incoming q2 - 1\<rparr>"
  have fl: "get_incoming_round P malloc_ok q ind = Inr (fst (queue_bubble_up q3 n))"
    using False
    by (cases "count_q q = size_q q")
       (simp_all add: get_incoming_round_def queue_grow_def Let_def q1_def q2_def q3_def n_def)
  have re: "get_incoming_round P malloc_ok (real_queue q) ind
      = Inr (fst (queue_bubble_up (real_queue q3) n))"
    using False
    by (cases "count_q q = size_q q")
       (simp_all add: get_incoming_round_def queue_grow_def Let_def q1_def q2_def q3_def n_def)
  have t3: "tid q3 = round_tid P q ind" "tasks q3 = tasks q"
    by (simp_all add: q1_def q2_def q3_def round_tid_def)
  note rt = round_tid_props [OF g wf, of ind]
  have len: "n + 1 \<le> length (tid q3)" using rt(1) t3 by (simp add: n_def)
  have "take (n + 1) (tid q3) = take n (tid q) @ [tid_incoming q ! ind]"
    using rt(1,3,4) t3 by (simp add: n_def take_Suc_conv_app_nth)
  moreover have "weight (tasks q (tid_incoming q ! ind)) \<noteq> NaN"
    using ok b p by (simp add: weights_ok_def)
  ultimately have f3: "\<forall>t \<in> set (take (n + 1) (tid q3)). weight (tasks q3 t) \<noteq> NaN"
    using ok t3 by (auto simp: weights_ok_def n_def)
  have "queue_bubble_up (real_queue q3) n
          = (real_queue (fst (queue_bubble_up q3 n)), snd (queue_bubble_up q3 n))"
    using queue_bubble_up_real [OF _ len f3, of n] by simp
  then show ?thesis using fl re by simp
qed

lemma queue_get_incoming_weights:
  assumes g: "2 \<le> queue_sizegrow P" and wf: "queue_wf q" and ok: "weights_ok q"
    and r: "queue_get_incoming P malloc_ok q = Inr q'"
  shows "weights_ok q' \<and> queue_wf q'"
proof -
  define I where "I = (\<lambda>q1 :: float queue. weights_ok q1 \<and> queue_wf q1)"
  have "I q'"
  proof (rule queue_get_incoming_invariant [OF r, where I = I], goal_cases)
    case 1
    show ?case using wf ok by (simp add: I_def)
  next
    case 2
    show ?case
      using get_incoming_round_weights [OF g] get_incoming_round_heap(1) [OF g]
      by (auto simp: I_def)
  qed
  then show ?thesis by (simp add: I_def)
qed

lemma queue_get_incoming_real:
  "2 \<le> queue_sizegrow P \<Longrightarrow> queue_wf q \<Longrightarrow> weights_ok q \<Longrightarrow>
   queue_get_incoming P malloc_ok (real_queue q)
     = map_sum id real_queue (queue_get_incoming P malloc_ok q)"
proof (induction P malloc_ok q rule: queue_get_incoming.induct)
  case (1 P malloc_ok q)
  let ?ind = "unat (first_incoming q) mod queue_incoming_size P"
  show ?case
  proof (cases "queue_incoming_size P = 0 \<or> ?ind \<ge> length (tid_incoming q)
                \<or> tid_incoming q ! ?ind < 0")
    case True
    have "queue_get_incoming P malloc_ok q =
        (if queue_incoming_size P = 0 then Inl Division_by_zero
         else if ?ind \<ge> length (tid_incoming q) then Inl Out_of_bounds else Inr q)"
      using True by (subst queue_get_incoming.simps) (auto simp: Let_def)
    moreover have "queue_get_incoming P malloc_ok (real_queue q) =
        (if queue_incoming_size P = 0 then Inl Division_by_zero
         else if ?ind \<ge> length (tid_incoming q) then Inl Out_of_bounds else Inr (real_queue q))"
      using True by (subst queue_get_incoming.simps) (auto simp: Let_def)
    ultimately show ?thesis by simp
  next
    case False
    then have S: "queue_incoming_size P \<noteq> 0" and b: "?ind < length (tid_incoming q)"
      and p: "0 \<le> tid_incoming q ! ?ind" by simp_all
    have nb: "\<not> length (tid_incoming q) \<le> ?ind" and np: "\<not> tid_incoming q ! ?ind < 0"
      using b p by simp_all
    note rr = get_incoming_round_real [OF "1.prems"(1,2,3) b p, of malloc_ok]
    have fl: "queue_get_incoming P malloc_ok q =
        (case get_incoming_round P malloc_ok q ?ind of
           Inl e \<Rightarrow> Inl e | Inr q1 \<Rightarrow> queue_get_incoming P malloc_ok q1)"
      using S nb np by (subst queue_get_incoming.simps) (simp add: Let_def)
    have re: "queue_get_incoming P malloc_ok (real_queue q) =
        (case get_incoming_round P malloc_ok (real_queue q) ?ind of
           Inl e \<Rightarrow> Inl e | Inr q1 \<Rightarrow> queue_get_incoming P malloc_ok q1)"
      using S nb np by (subst queue_get_incoming.simps) (simp add: Let_def)
    show ?thesis
    proof (cases "get_incoming_round P malloc_ok q ?ind")
      case (Inl e)
      then show ?thesis using fl re rr by simp
    next
      case (Inr q1)
      have ok1: "weights_ok q1"
        using get_incoming_round_weights [OF "1.prems"(1,2,3) b p Inr] .
      have wf1: "queue_wf q1"
        using get_incoming_round_heap(1) [OF "1.prems"(1,2) Inr] .
      have "queue_get_incoming P malloc_ok (real_queue q1)
              = map_sum id real_queue (queue_get_incoming P malloc_ok q1)"
        using "1.IH" [OF S refl nb np Inr "1.prems"(1) wf1 ok1] .
      then show ?thesis using fl re rr Inr by (simp add: id_def)
    qed
  qed
qed

lemma weights_ok_frame [simp]:
  "weights_ok (q\<lparr>lock := b\<rparr>) = weights_ok q"
  "weights_ok (q\<lparr>last_incoming := a\<rparr>) = weights_ok q"
  "weights_ok (q\<lparr>count_incoming := a\<rparr>) = weights_ok q"
  by (simp_all add: weights_ok_def)

lemma queue_get_incoming_tasks:
  fixes q :: "'a::ord queue"
  assumes r: "queue_get_incoming P malloc_ok q = Inr q'"
  shows "tasks q' = tasks q \<and> lock q' = lock q"
proof -
  define I where "I = (\<lambda>q1 :: 'a queue. tasks q1 = tasks q \<and> lock q1 = lock q)"
  have "I q'"
  proof (rule queue_get_incoming_invariant [OF r, where I = I], goal_cases)
    case 1
    show ?case by (simp add: I_def)
  next
    case 2
    show ?case
    proof (intro allI impI)
      fix q0 ind q1
      assume I: "I q0" and r1: "get_incoming_round P malloc_ok q0 ind = Inr q1"
      show "I q1"
        using get_incoming_round_fields(2,3) [OF r1] I by (simp add: I_def)
    qed
  qed
  then show ?thesis by (simp add: I_def)
qed

lemma queue_insert_spin_real:
  assumes r: "queue_insert_spin P malloc_ok ind t q = Some y"
    and g: "2 \<le> queue_sizegrow P" and wf: "queue_wf q" and ok: "weights_ok q"
    and t: "weight (tasks q t) \<noteq> NaN"
  shows "queue_insert_spin P malloc_ok ind t (real_queue q) = Some (map_sum id real_queue y)
         \<and> (\<forall>q'. y = Inr q' \<longrightarrow> weights_ok q' \<and> queue_wf q' \<and> tasks q' = tasks q)"
proof -
  define Q :: "(((queue_params \<times> (nat \<Rightarrow> bool)) \<times> nat) \<times> int) \<times> float queue \<Rightarrow>
      error + float queue \<Rightarrow> bool"
    where "Q = (\<lambda>x y. 2 \<le> queue_sizegrow (fst (fst (fst (fst x)))) \<longrightarrow>
                  queue_wf (snd x) \<longrightarrow> weights_ok (snd x) \<longrightarrow>
                  weight (tasks (snd x) (snd (fst x))) \<noteq> NaN \<longrightarrow>
                  queue_insert_spin (fst (fst (fst (fst x)))) (snd (fst (fst (fst x))))
                      (snd (fst (fst x))) (snd (fst x)) (real_queue (snd x))
                    = Some (map_sum id real_queue y)
                  \<and> (\<forall>q'. y = Inr q' \<longrightarrow>
                        weights_ok q' \<and> queue_wf q' \<and> tasks q' = tasks (snd x)))"
  have "Q ((((P, malloc_ok), ind), t), q) y"
  proof (rule queue_insert_spin.raw_induct [where Pa = Q, OF _ r], goal_cases)
    case (1 f P malloc_ok ind t q y)
    show ?case
      unfolding Q_def fst_conv snd_conv
    proof (intro impI)
      assume g: "2 \<le> queue_sizegrow P" and wf: "queue_wf q" and ok: "weights_ok q"
        and t: "weight (tasks q t) \<noteq> NaN"
      let ?q0 = "q\<lparr>lock := snd (lock_trylock (lock q))\<rparr>"
      let ?goal = "queue_insert_spin P malloc_ok ind t (real_queue q)
                     = Some (map_sum id real_queue y)
                   \<and> (\<forall>q'. y = Inr q' \<longrightarrow> weights_ok q' \<and> queue_wf q' \<and> tasks q' = tasks q)"
      note IH = "1"(1) [unfolded Q_def fst_conv snd_conv, rule_format]
      show ?goal
      proof (cases "ind \<ge> length (tid_incoming q)")
        case True
        then have "y = Inl Out_of_bounds" using "1"(2) by simp
        then show ?thesis
          using True by (subst queue_insert_spin.simps) simp
      next
        case inb: False
        show ?thesis
        proof (cases "tid_incoming q ! ind = - 1")
          case True
          then have y: "y = Inr (q\<lparr>tid_incoming := (tid_incoming q)[ind := t]\<rparr>)"
            using "1"(2) inb by simp
          have "set ((tid_incoming q)[ind := t]) \<subseteq> insert t (set (tid_incoming q))"
            by (rule set_update_subset_insert)
          then have "weights_ok (q\<lparr>tid_incoming := (tid_incoming q)[ind := t]\<rparr>)"
            using ok t by (auto simp: weights_ok_def)
          moreover have "queue_wf (q\<lparr>tid_incoming := (tid_incoming q)[ind := t]\<rparr>)"
            using wf by (auto simp: queue_wf_def)
          ultimately show ?thesis
            using True inb y by (subst queue_insert_spin.simps) simp
        next
          case occ: False
          show ?thesis
          proof (cases "fst (lock_trylock (lock q)) = 0")
            case nolock: False
            then have s: "f P malloc_ok ind t q = Some y"
              using "1"(2) inb occ by simp
            show ?thesis using IH [OF s g wf ok t] .
          next
            case got: True
            have wf0: "queue_wf ?q0" and ok0: "weights_ok ?q0" using wf ok by simp_all
            note dr = queue_get_incoming_real [OF g wf0 ok0, of malloc_ok]
            show ?thesis
            proof (cases "queue_get_incoming P malloc_ok ?q0")
              case (Inl e)
              then have y: "y = Inl e" using "1"(2) inb occ got by simp
              show ?thesis
                using inb occ got Inl dr y by (subst queue_insert_spin.simps) simp
            next
              case (Inr q1)
              note q1 = queue_get_incoming_weights [OF g wf0 ok0 Inr]
                queue_get_incoming_tasks [OF Inr]
              let ?q2 = "q1\<lparr>lock := snd (lock_unlock (lock q1))\<rparr>"
              show ?thesis
              proof (cases "fst (lock_unlock (lock q1)) \<noteq> 0")
                case True
                then have y: "y = Inl Lock_failed" using "1"(2) inb occ got Inr by simp
                show ?thesis
                  using inb occ got Inr dr y True by (subst queue_insert_spin.simps) simp
              next
                case False
                then have s: "f P malloc_ok ind t ?q2 = Some y"
                  using "1"(2) inb occ got Inr by simp
                have t2: "weight (tasks ?q2 t) \<noteq> NaN" using t q1 by simp
                have "queue_insert_spin P malloc_ok ind t (real_queue ?q2)
                        = Some (map_sum id real_queue y)
                      \<and> (\<forall>q'. y = Inr q' \<longrightarrow>
                            weights_ok q' \<and> queue_wf q' \<and> tasks q' = tasks ?q2)"
                  using IH [OF s g _ _ t2] q1 by simp
                then show ?thesis
                  using inb occ got Inr dr False q1
                  by (subst queue_insert_spin.simps) simp
              qed
            qed
          qed
        qed
      qed
    qed
  qed
  then show ?thesis using g wf ok t by (simp add: Q_def)
qed

lemma queue_insert_real:
  assumes r: "queue_insert P malloc_ok q t = Some y"
    and g: "2 \<le> queue_sizegrow P" and wf: "queue_wf q" and ok: "weights_ok q"
    and t: "weight (tasks q t) \<noteq> NaN"
  shows "queue_insert P malloc_ok (real_queue q) t = Some (map_sum id real_queue y)
         \<and> (\<forall>q'. y = Inr q' \<longrightarrow> weights_ok q' \<and> queue_wf q' \<and> tasks q' = tasks q)"
proof (cases "queue_incoming_size P = 0")
  case True
  then show ?thesis using r by (auto simp: queue_insert_def)
next
  case False
  let ?ind = "unat (last_incoming q) mod queue_incoming_size P"
  let ?q1 = "q\<lparr>last_incoming := last_incoming q + 1\<rparr>"
  obtain y1 where s: "queue_insert_spin P malloc_ok ?ind t ?q1 = Some y1"
    using r False by (auto simp: queue_insert_def Let_def split: option.splits)
  have wf1: "queue_wf ?q1" and ok1: "weights_ok ?q1" and t1: "weight (tasks ?q1 t) \<noteq> NaN"
    using wf ok t by (auto simp: queue_wf_def)
  note sr = queue_insert_spin_real [OF s g wf1 ok1 t1]
  have rq: "real_queue ?q1 = (real_queue q)\<lparr>last_incoming := last_incoming (real_queue q) + 1\<rparr>"
    by simp
  show ?thesis
  proof (cases y1)
    case (Inl e)
    then have y: "y = Inl e"
      using r s False by (simp add: queue_insert_def Let_def)
    have "queue_insert_spin P malloc_ok ?ind t (real_queue ?q1) = Some (Inl e)"
      using sr Inl by simp
    then have "queue_insert P malloc_ok (real_queue q) t = Some (Inl e)"
      using False unfolding rq by (simp add: queue_insert_def Let_def)
    then show ?thesis using y by simp
  next
    case (Inr q2)
    then have y: "y = Inr (q2\<lparr>count_incoming := count_incoming q2 + 1\<rparr>)"
      using r s False by (simp add: queue_insert_def Let_def)
    have "queue_insert_spin P malloc_ok ?ind t (real_queue ?q1) = Some (Inr (real_queue q2))"
      using sr Inr by simp
    then have "queue_insert P malloc_ok (real_queue q) t
        = Some (Inr ((real_queue q2)\<lparr>count_incoming := count_incoming q2 + 1\<rparr>))"
      using False unfolding rq by (simp add: queue_insert_def Let_def)
    moreover have "weights_ok q2 \<and> queue_wf q2 \<and> tasks q2 = tasks q"
      using sr Inr by simp
    ultimately show ?thesis
      using y by (auto simp: queue_wf_def)
  qed
qed

lemma heap_ok_real:
  assumes wf: "queue_wf q" and ok: "weights_ok q"
  shows "heap_ok (real_queue q) = heap_ok q"
proof -
  have len: "count_q q \<le> length (tid q)" using wf by (simp add: queue_wf_def)
  have f: "\<forall>k < count_q q. weight (tasks q (tid q ! k)) \<noteq> NaN"
    using ok take_not_nan [OF len, of "tasks q"] by (simp add: weights_ok_def)
  have "float_val (weight (tasks q (tid q ! k))) \<le> float_val (weight (tasks q (tid q ! ((k - 1) div 2))))
        \<longleftrightarrow> weight (tasks q (tid q ! k)) \<le> weight (tasks q (tid q ! ((k - 1) div 2)))"
    if "k \<in> {1..<count_q q}" for k
  proof -
    have "(k - 1) div 2 < count_q q" using that by auto
    then show ?thesis using f that by (simp add: float_val_le)
  qed
  then show ?thesis by (simp add: heap_ok_def heap_on_def)
qed

lemma gettask_locked_real:
  assumes g: "2 \<le> queue_sizegrow P" and W: "0 < queue_search_window P"
    and wf: "queue_wf q" and ok: "weights_ok q"
  shows "gettask_locked P malloc_ok task_overlap task_lock (real_queue q) l prev
           = map_sum id (\<lambda>(res, q', l'). (res, real_queue q', l'))
               (gettask_locked P malloc_ok task_overlap task_lock q l prev)
         \<and> (\<forall>res q' l'. gettask_locked P malloc_ok task_overlap task_lock q l prev
                           = Inr (res, q', l') \<longrightarrow>
               weights_ok q' \<and> queue_wf q' \<and> tasks q' = tasks q)"
proof (cases "queue_get_incoming P malloc_ok q")
  case (Inl e)
  then show ?thesis
    using queue_get_incoming_real [OF g wf ok, of malloc_ok] by (simp add: gettask_locked_def)
next
  case (Inr q1)
  have dr: "queue_get_incoming P malloc_ok (real_queue q) = Inr (real_queue q1)"
    using queue_get_incoming_real [OF g wf ok, of malloc_ok] Inr by simp
  have q1: "weights_ok q1" "queue_wf q1" "tasks q1 = tasks q"
    using queue_get_incoming_weights [OF g wf ok Inr] queue_get_incoming_tasks [OF Inr]
    by simp_all
  show ?thesis
  proof (cases "count_q q1 = 0")
    case True
    then show ?thesis using Inr dr q1 by (simp add: gettask_locked_def)
  next
    case False
    obtain tid1 ind1 l1 where
      s: "gettask_search (queue_search_window P) (task_overlap prev) task_lock (tid q1)
            (count_q q1) l = Inr (tid1, ind1, l1)"
      and sel: "sel_ok (tid q1) (count_q q1) tid1 ind1"
      using gettask_search_ok [OF W, of "task_overlap prev" task_lock "tid q1" "count_q q1" l]
      by blast
    show ?thesis
    proof (cases "ind1 \<ge> 0")
      case True
      then have i: "nat ind1 < count_q q1"
        using sel by (auto simp: sel_ok_def)
      have len: "count_q q1 \<le> length (tid q1)"
        using q1(2) by (simp add: queue_wf_def)
      have f: "\<forall>t \<in> set (take (count_q q1) (tid q1)). weight (tasks q1 t) \<noteq> NaN"
        using q1(1) by (simp add: weights_ok_def)
      have rm: "gettask_remove (real_queue q1) (nat ind1) = real_queue (gettask_remove q1 (nat ind1))"
        using gettask_remove_real [OF i len f] .
      have ok2: "weights_ok (gettask_remove q1 (nat ind1))"
        using gettask_remove_weights [OF i len q1(1)] .
      have wf2: "queue_wf (gettask_remove q1 (nat ind1))"
        using q1(2) by (auto simp: queue_wf_def gettask_remove_fields)
      show ?thesis
        using Inr dr False s True rm ok2 wf2 q1(3)
        by (simp add: gettask_locked_def Let_def gettask_remove_fields)
    next
      case neg: False
      then show ?thesis
        using Inr dr False s q1 by (simp add: gettask_locked_def Let_def)
    qed
  qed
qed

lemma queue_gettask_real:
  assumes g: "2 \<le> queue_sizegrow P" and W: "0 < queue_search_window P"
    and wf: "queue_wf q" and ok: "weights_ok q"
  shows "queue_gettask P malloc_ok task_overlap task_lock (real_queue q) l prev blocking
           = map_option (map_sum id (\<lambda>(res, q', l'). (res, real_queue q', l')))
               (queue_gettask P malloc_ok task_overlap task_lock q l prev blocking)
         \<and> (\<forall>res q' l'. queue_gettask P malloc_ok task_overlap task_lock q l prev blocking
                           = Some (Inr (res, q', l')) \<longrightarrow>
               weights_ok q' \<and> queue_wf q' \<and> tasks q' = tasks q)"
proof -
  have L: "gettask_locked P malloc_ok task_overlap task_lock (real_queue (q\<lparr>lock := lk\<rparr>)) l prev
           = map_sum id (\<lambda>(res, q', l'). (res, real_queue q', l'))
               (gettask_locked P malloc_ok task_overlap task_lock (q\<lparr>lock := lk\<rparr>) l prev)
         \<and> (\<forall>res q' l'. gettask_locked P malloc_ok task_overlap task_lock (q\<lparr>lock := lk\<rparr>) l prev
                           = Inr (res, q', l') \<longrightarrow>
               weights_ok q' \<and> queue_wf q' \<and> tasks q' = tasks q)" for lk
    using gettask_locked_real [OF g W, of "q\<lparr>lock := lk\<rparr>" malloc_ok task_overlap task_lock l prev]
      wf ok by simp
  show ?thesis
  proof (cases blocking)
    case True
    show ?thesis
    proof (cases "lock_lock (lock q)")
      case None
      then show ?thesis using True by (simp add: queue_gettask_def)
    next
      case (Some a)
      obtain rc lk where a: "a = (rc, lk)" by (cases a)
      show ?thesis
        using True Some a L [of lk] wf ok
        by (cases "rc = 0") (simp_all add: queue_gettask_def)
    qed
  next
    case False
    show ?thesis
      using False L [of "snd (lock_trylock (lock q))"] wf ok
      by (cases "fst (lock_trylock (lock q)) = 0") (simp_all add: queue_gettask_def)
  qed
qed

lemma queue_init_real:
  "queue_init P malloc_ok (real_tasks qtasks) = map_sum id real_queue (queue_init P malloc_ok qtasks)"
  by (simp add: queue_init_def real_queue_def)

lemma queue_init_weights:
  "queue_init P malloc_ok qtasks = Inr q \<Longrightarrow> weights_ok q"
  by (auto simp: queue_init_def weights_ok_def split: if_splits)

lemma queue_gettask_ok:
  fixes q :: "real queue"
  assumes g: "2 \<le> queue_sizegrow P" and W: "0 < queue_search_window P"
    and wf: "queue_wf q" and h: "heap_ok q"
    and r: "queue_gettask P malloc_ok task_overlap task_lock q l prev blocking
              = Some (Inr (res, q', l'))"
  shows "heap_ok q' \<and> queue_wf q'"
proof (cases "q' = q")
  case True
  then show ?thesis using wf h by simp
next
  case False
  then obtain lk where k: "gettask_locked P malloc_ok task_overlap task_lock (q\<lparr>lock := lk\<rparr>) l prev
      = Inr (res, q', l')"
    using r by (auto simp: queue_gettask_def split: if_splits option.splits)
  show ?thesis
    using gettask_locked_ok [OF g W _ _ k] wf h by simp
qed

lemma queue_run_heap_real:
  fixes q :: "real queue"
  shows "2 \<le> queue_sizegrow P \<Longrightarrow> 0 < queue_search_window P \<Longrightarrow> queue_wf q \<Longrightarrow> heap_ok q \<Longrightarrow>
   queue_run P malloc_ok task_overlap task_lock ops q l rs = Some (Inr (q', l', rs')) \<Longrightarrow>
   heap_ok q' \<and> queue_wf q'"
proof (induction ops arbitrary: q l rs)
  case Nil
  then show ?case by simp
next
  case (Cons a ops)
  show ?case
  proof (cases a)
    case (Insert t)
    then obtain q1 where i: "queue_insert P malloc_ok q t = Some (Inr q1)"
      and r: "queue_run P malloc_ok task_overlap task_lock ops q1 l rs = Some (Inr (q', l', rs'))"
      using Cons.prems(5) by (auto split: option.splits sum.splits)
    have "heap_ok q1 \<and> queue_wf q1"
      using queue_insert_ok [OF Cons.prems(1,3,4) i] by simp
    then show ?thesis using Cons.IH [OF Cons.prems(1,2) _ _ r] by simp
  next
    case Drain
    then obtain q1 where d: "queue_get_incoming P malloc_ok q = Inr q1"
      and r: "queue_run P malloc_ok task_overlap task_lock ops q1 l rs = Some (Inr (q', l', rs'))"
      using Cons.prems(5) by (auto split: option.splits sum.splits)
    have "heap_ok q1 \<and> queue_wf q1"
      using queue_get_incoming_ok [OF Cons.prems(1,3,4) d] by simp
    then show ?thesis using Cons.IH [OF Cons.prems(1,2) _ _ r] by simp
  next
    case (Gettask prev blocking)
    then obtain res q1 l1 where
      d: "queue_gettask P malloc_ok task_overlap task_lock q l prev blocking
            = Some (Inr (res, q1, l1))"
      and r: "queue_run P malloc_ok task_overlap task_lock ops q1 l1 (rs @ returned res)
                = Some (Inr (q', l', rs'))"
      using Cons.prems(5) by (auto split: option.splits sum.splits)
    have "heap_ok q1 \<and> queue_wf q1"
      using queue_gettask_ok [OF Cons.prems(1,2,3,4) d] .
    then show ?thesis using Cons.IH [OF Cons.prems(1,2) _ _ r] by simp
  qed
qed

lemma queue_run_real:
  "2 \<le> queue_sizegrow P \<Longrightarrow> 0 < queue_search_window P \<Longrightarrow> queue_wf q \<Longrightarrow> weights_ok q \<Longrightarrow>
   \<forall>t \<in> set (inserted ops). weight (tasks q t) \<noteq> NaN \<Longrightarrow>
   queue_run P malloc_ok task_overlap task_lock ops q l rs = Some (Inr (q', l', rs')) \<Longrightarrow>
   queue_run P malloc_ok task_overlap task_lock ops (real_queue q) l rs
     = Some (Inr (real_queue q', l', rs'))
   \<and> weights_ok q' \<and> queue_wf q' \<and> tasks q' = tasks q"
proof (induction ops arbitrary: q l rs)
  case Nil
  then show ?case by simp
next
  case (Cons a ops)
  show ?case
  proof (cases a)
    case (Insert t)
    then obtain q1 where i: "queue_insert P malloc_ok q t = Some (Inr q1)"
      and r: "queue_run P malloc_ok task_overlap task_lock ops q1 l rs = Some (Inr (q', l', rs'))"
      using Cons.prems(6) by (auto split: option.splits sum.splits)
    have t: "weight (tasks q t) \<noteq> NaN" using Cons.prems(5) Insert by simp
    have s: "queue_insert P malloc_ok (real_queue q) t = Some (Inr (real_queue q1))"
      "weights_ok q1" "queue_wf q1" "tasks q1 = tasks q"
      using queue_insert_real [OF i Cons.prems(1,3,4) t] by simp_all
    have rest: "\<forall>t \<in> set (inserted ops). weight (tasks q1 t) \<noteq> NaN"
      using Cons.prems(5) Insert s(4) by simp
    show ?thesis
      using Cons.IH [OF Cons.prems(1,2) s(3,2) rest r] s(1,4) Insert by simp
  next
    case Drain
    then obtain q1 where d: "queue_get_incoming P malloc_ok q = Inr q1"
      and r: "queue_run P malloc_ok task_overlap task_lock ops q1 l rs = Some (Inr (q', l', rs'))"
      using Cons.prems(6) by (auto split: option.splits sum.splits)
    have s: "queue_get_incoming P malloc_ok (real_queue q) = Inr (real_queue q1)"
      "weights_ok q1" "queue_wf q1" "tasks q1 = tasks q"
      using queue_get_incoming_real [OF Cons.prems(1,3,4), of malloc_ok] d
        queue_get_incoming_weights [OF Cons.prems(1,3,4) d] queue_get_incoming_tasks [OF d]
      by simp_all
    have rest: "\<forall>t \<in> set (inserted ops). weight (tasks q1 t) \<noteq> NaN"
      using Cons.prems(5) Drain s(4) by simp
    show ?thesis
      using Cons.IH [OF Cons.prems(1,2) s(3,2) rest r] s(1,4) Drain by simp
  next
    case (Gettask prev blocking)
    then obtain res q1 l1 where
      d: "queue_gettask P malloc_ok task_overlap task_lock q l prev blocking
            = Some (Inr (res, q1, l1))"
      and r: "queue_run P malloc_ok task_overlap task_lock ops q1 l1 (rs @ returned res)
                = Some (Inr (q', l', rs'))"
      using Cons.prems(6) by (auto split: option.splits sum.splits)
    have s: "queue_gettask P malloc_ok task_overlap task_lock (real_queue q) l prev blocking
               = Some (Inr (res, real_queue q1, l1))"
      "weights_ok q1" "queue_wf q1" "tasks q1 = tasks q"
      using queue_gettask_real [OF Cons.prems(1,2,3,4), of malloc_ok task_overlap task_lock l prev
          blocking] d
      by simp_all
    have rest: "\<forall>t \<in> set (inserted ops). weight (tasks q1 t) \<noteq> NaN"
      using Cons.prems(5) Gettask s(4) by simp
    show ?thesis
      using Cons.IH [OF Cons.prems(1,2) s(3,2) rest r] s(1,4) Gettask by simp
  qed
qed

text \<open>
  A run on weights that are not NaN keeps the heap order.
\<close>

lemma queue_run_heap:
  assumes g: "2 \<le> queue_sizegrow P" and W: "0 < queue_search_window P"
    and wf: "queue_wf q" and ok: "weights_ok q" and h: "heap_ok q"
    and t: "\<forall>t \<in> set (inserted ops). weight (tasks q t) \<noteq> NaN"
    and r: "queue_run P malloc_ok task_overlap task_lock ops q l rs = Some (Inr (q', l', rs'))"
  shows "heap_ok q' \<and> weights_ok q' \<and> queue_wf q'"
proof -
  note s = queue_run_real [OF g W wf ok t r]
  have "heap_ok (real_queue q)" using h heap_ok_real [OF wf ok] by simp
  then have "heap_ok (real_queue q')"
    using queue_run_heap_real [OF g W _ _ s [THEN conjunct1]] wf by simp
  then show ?thesis using s heap_ok_real [of q'] by simp
qed

lemma inserted_insert_drain [simp]: "inserted (insert_drain ts) = ts"
  by (induction ts) simp_all

section \<open>The heap order when no weight is NaN\<close>

text \<open>
  C1, as the code has it. On a well-formed queue whose heap is in heap order, where no
  task in the heap and no task that waits in the incoming buffer has the weight NaN, with
  a growth factor of at least 2 and a window of at least one entry: the heap is in heap
  order, and again without NaN, after the insert of a task whose weight is not NaN
  followed by a drain, after a drain, and after every \<open>queue_gettask\<close> that returns.
\<close>

theorem heap_order_kept:
  fixes q :: "float queue"
  assumes "2 \<le> queue_sizegrow P" and "0 < queue_search_window P"
    and "queue_wf q" and "heap_ok q" and "weights_ok q"
  shows "(weight (tasks q t) \<noteq> NaN \<longrightarrow> queue_insert P malloc_ok q t = Some (Inr q1) \<longrightarrow>
            queue_get_incoming P malloc_ok q1 = Inr q2 \<longrightarrow> heap_ok q2 \<and> weights_ok q2)
       \<and> (queue_get_incoming P malloc_ok q = Inr q3 \<longrightarrow> heap_ok q3 \<and> weights_ok q3)
       \<and> (queue_gettask P malloc_ok task_overlap task_lock q l prev blocking
            = Some (Inr (res, q4, l4)) \<longrightarrow> heap_ok q4 \<and> weights_ok q4)"
proof (intro conjI impI)
  assume t: "weight (tasks q t) \<noteq> NaN"
    and i: "queue_insert P malloc_ok q t = Some (Inr q1)"
    and d: "queue_get_incoming P malloc_ok q1 = Inr q2"
  have r: "queue_run P malloc_ok (\<lambda>p u. Float 0) (\<lambda>l u. (True, l)) [Insert t, Drain] q () []
      = Some (Inr (q2, (), []))"
    using i d by simp
  have "\<forall>u \<in> set (inserted [Insert t, Drain]). weight (tasks q u) \<noteq> NaN" using t by simp
  from queue_run_heap [OF assms(1,2,3,5,4) this r]
  show "heap_ok q2" and "weights_ok q2" by simp_all
next
  assume d: "queue_get_incoming P malloc_ok q = Inr q3"
  have r: "queue_run P malloc_ok (\<lambda>p u. Float 0) (\<lambda>l u. (True, l)) [Drain] q () []
      = Some (Inr (q3, (), []))"
    using d by simp
  have "\<forall>u \<in> set (inserted [Drain]). weight (tasks q u) \<noteq> NaN" by simp
  from queue_run_heap [OF assms(1,2,3,5,4) this r]
  show "heap_ok q3" and "weights_ok q3" by simp_all
next
  assume d: "queue_gettask P malloc_ok task_overlap task_lock q l prev blocking
              = Some (Inr (res, q4, l4))"
  have r: "queue_run P malloc_ok task_overlap task_lock [Gettask prev blocking] q l []
      = Some (Inr (q4, l4, returned res))"
    using d by simp
  have "\<forall>u \<in> set (inserted [Gettask prev blocking]). weight (tasks q u) \<noteq> NaN" by simp
  from queue_run_heap [OF assms(1,2,3,5,4) this r]
  show "heap_ok q4" and "weights_ok q4" by simp_all
qed

theorem heap_order_kept_witness:
  "2 \<le> queue_sizegrow example_params \<and> 0 < queue_search_window example_params
   \<and> queue_wf example_queue \<and> heap_ok example_queue \<and> weights_ok example_queue
   \<and> (case queue_gettask example_params malloc_always overlap_zero lock_always example_queue ()
             None True of
         Some (Inr (res, q, l)) \<Rightarrow>
           res = Some 2 \<and> tid q = [0, 3, 1, 1] \<and> count_q q = 3 \<and> heap_ok q
       | _ \<Rightarrow> False)"
proof -
  note h = example_heap_ok
  have "\<And>res q l.
      queue_gettask example_params malloc_always overlap_zero lock_always example_queue ()
        None True = Some (Inr (res, q, l)) \<Longrightarrow> heap_ok q"
    using heap_order_kept [of example_params example_queue _ malloc_always _ _ _
        overlap_zero lock_always "()" None True] h
    by blast
  then show ?thesis
    using h example_gettask by (auto split: option.splits sum.splits)
qed

text \<open>
  C1, as the claim states it, fails for a weight that is NaN. The queue that holds the
  task of weight 9 is well formed and in heap order. After the insert of the task of
  weight NaN and a drain the heap array is \<open>[1, 0]\<close>, with NaN at the root: the test
  \<open>w < weight\<close> of \<open>queue_bubble_up\<close> is false and the entry moves up. After the insert of
  the task of weight 5 and a drain it is \<open>[2, 0, 1]\<close>, the weights 5, 9 and NaN: the root
  weighs less than its child.
\<close>

theorem heap_order_nan_counterexample:
  "2 \<le> queue_sizegrow example_params \<and> 0 < queue_search_window example_params
   \<and> queue_wf nan_queue \<and> heap_ok nan_queue
   \<and> (case queue_insert example_params malloc_always nan_queue 1 of
         Some (Inr q1) \<Rightarrow>
           (case queue_get_incoming example_params malloc_always q1 of
              Inr q2 \<Rightarrow>
                count_q q2 = 2 \<and> tid q2 = [1, 0] \<and> \<not> heap_ok q2
                \<and> (case queue_insert example_params malloc_always q2 2 of
                      Some (Inr q3) \<Rightarrow>
                        (case queue_get_incoming example_params malloc_always q3 of
                           Inr q4 \<Rightarrow>
                             count_q q4 = 3 \<and> tid q4 = [2, 0, 1, 0] \<and> \<not> heap_ok q4
                             \<and> weight (tasks q4 (tid q4 ! 0)) < weight (tasks q4 (tid q4 ! 1))
                         | _ \<Rightarrow> False)
                    | _ \<Rightarrow> False)
            | _ \<Rightarrow> False)
       | _ \<Rightarrow> False)"
  by code_simp

text \<open>
  C6, as the code has it. From a freshly initialised queue, with positive constants (a
  growth factor of at least 2) and an allocator that does not fail: after the tasks \<open>ts\<close>
  (offsets into the task array) were inserted, each insert followed by a drain, \<open>count\<close>
  is their number, \<open>size\<close> is the length of the heap array and at least their number (so
  the array has grown when there are more tasks than \<open>queue_sizeinit\<close>), the heap holds
  exactly the tasks \<open>ts\<close>, and the task array with its weights is as it was. The heap is
  in heap order when none of the tasks \<open>ts\<close> has the weight NaN. With task locks that are
  free, as many \<open>queue_gettask\<close> calls as there are tasks then return exactly the tasks
  \<open>ts\<close>, the task array still being as it was.
\<close>

theorem growth_keeps_tasks:
  fixes qtasks :: "int \<Rightarrow> float task"
  assumes "0 < queue_sizeinit P" and "2 \<le> queue_sizegrow P"
    and "0 < queue_incoming_size P" and "0 < queue_search_window P"
    and "\<forall>k. malloc_ok k"
    and "\<forall>t \<in> set ts. 0 \<le> t"
    and "\<forall>l t. fst (task_lock l t)"
  shows "\<exists>q0 q. queue_init P malloc_ok qtasks = Inr q0
         \<and> queue_run P malloc_ok task_overlap task_lock (insert_drain ts) q0 l []
             = Some (Inr (q, l, []))
         \<and> count_q q = length ts \<and> length ts \<le> size_q q \<and> size_q q = length (tid q)
         \<and> (queue_sizeinit P < length ts \<longrightarrow> size_q q0 < size_q q)
         \<and> ((\<forall>t \<in> set ts. weight (qtasks t) \<noteq> NaN) \<longrightarrow> heap_ok q)
         \<and> mset (take (count_q q) (tid q)) = mset ts \<and> tasks q = qtasks
         \<and> (\<exists>q' l' rs.
               queue_run P malloc_ok task_overlap task_lock
                 (replicate (length ts) (Gettask prev blocking)) q l []
                 = Some (Inr (q', l', rs))
             \<and> mset rs = mset ts \<and> count_q q' = 0 \<and> tasks q' = qtasks)"
proof -
  obtain q0 where i: "queue_init P malloc_ok qtasks = Inr q0" "ring_ok P q0 0"
    "ring_counts q0 0" "queue_wf q0" "\<not> lock q0" "tasks q0 = qtasks" "count_q q0 = 0"
    "heap_ok q0" "size_q q0 = queue_sizeinit P"
    using queue_init_ok [OF assms(1,3,5), of qtasks] by blast
  obtain q where
    r: "queue_run P malloc_ok task_overlap task_lock (insert_drain ts) q0 l []
          = Some (Inr (q, l, []))"
    "ring_ok P q 0" "ring_counts q 0" "queue_wf q" "\<not> lock q"
    "tasks q = tasks q0" "count_q q = count_q q0 + length ts"
    "heap_mset q = heap_mset q0 + mset ts"
    using queue_run_insert_drain [OF assms(2,5) i(2,3,4,5) assms(6),
        of task_overlap task_lock l "[]"] by blast
  have h0: "heap_mset q0 = {#}" using i(7) by (simp add: heap_mset_def)
  have hm: "heap_mset q = mset ts" using r(8) h0 by simp
  have c: "count_q q = length ts" using r(7) i(7) by simp
  have sz: "length ts \<le> size_q q" "size_q q = length (tid q)"
    using r(4) c by (simp_all add: queue_wf_def)
  have refs: "heap_refs_ok q"
    unfolding heap_refs_ok_mset hm using assms(6) by simp
  have heap: "heap_ok q" if nn: "\<forall>t \<in> set ts. weight (qtasks t) \<noteq> NaN"
  proof -
    have "\<forall>t \<in> set (inserted (insert_drain ts)). weight (tasks q0 t) \<noteq> NaN"
      using nn i(6) by simp
    from queue_run_heap [OF assms(2,4) i(4) queue_init_weights [OF i(1)] i(8) this r(1)]
    show ?thesis by simp
  qed
  obtain q' l' rs where
    g: "queue_run P malloc_ok task_overlap task_lock
          (replicate (length ts) (Gettask prev blocking)) q l [] = Some (Inr (q', l', rs))"
    "mset rs = mset ([]::int list) + heap_mset q" "tasks q' = tasks q" "count_q q' = 0"
    using queue_run_gettask_all [OF assms(2,4,5,7) r(2,3,4,5) refs c,
        of task_overlap prev blocking l "[]"] by blast
  have "\<exists>q' l' rs.
          queue_run P malloc_ok task_overlap task_lock
            (replicate (length ts) (Gettask prev blocking)) q l [] = Some (Inr (q', l', rs))
        \<and> mset rs = mset ts \<and> count_q q' = 0 \<and> tasks q' = qtasks"
    using g hm r(6) i(6) by auto
  then show ?thesis
    using i(1,6,9) r(1,6) c sz hm heap
    by (intro exI [of _ q0] exI [of _ q]) (simp add: heap_mset_def)
qed

theorem growth_keeps_tasks_witness:
  "0 < queue_sizeinit example_params \<and> 2 \<le> queue_sizegrow example_params
   \<and> 0 < queue_incoming_size example_params \<and> 0 < queue_search_window example_params
   \<and> queue_sizeinit example_params < length [0, 1, 2, 3 :: int]
   \<and> (\<exists>q0 q. queue_init example_params malloc_always example_tasks = Inr q0
         \<and> queue_run example_params malloc_always overlap_zero lock_always
              (insert_drain [0, 1, 2, 3]) q0 () [] = Some (Inr (q, (), []))
         \<and> count_q q = 4 \<and> size_q q = 4 \<and> size_q q0 < size_q q \<and> heap_ok q
         \<and> mset (take (count_q q) (tid q)) = mset [0, 1, 2, 3]
         \<and> tasks q = example_tasks)"
proof -
  have a: "0 < queue_sizeinit example_params" and b: "2 \<le> queue_sizegrow example_params"
    and c: "0 < queue_incoming_size example_params"
    and d: "0 < queue_search_window example_params"
    and n: "queue_sizeinit example_params < length [0, 1, 2, 3 :: int]"
    by (simp_all add: example_params_def)
  have m: "\<forall>k. malloc_always k" by (simp add: malloc_always_def)
  have t: "\<forall>t \<in> set [0, 1, 2, 3 :: int]. 0 \<le> t" by simp
  have f: "\<forall>l t. fst (lock_always l t)" by (simp add: lock_always_def)
  have nn: "\<forall>t \<in> set [0, 1, 2, 3 :: int]. weight (example_tasks t) \<noteq> NaN"
    by (simp add: example_tasks_def)
  from growth_keeps_tasks [where task_overlap = overlap_zero and task_lock = lock_always
      and l = "()" and qtasks = example_tasks and prev = None and blocking = True,
      OF a b c d m t f]
  obtain q0 q where
    r: "queue_init example_params malloc_always example_tasks = Inr q0"
    "queue_run example_params malloc_always overlap_zero lock_always
       (insert_drain [0, 1, 2, 3]) q0 () [] = Some (Inr (q, (), []))"
    "count_q q = length [0, 1, 2, 3 :: int]"
    "queue_sizeinit example_params < length [0, 1, 2, 3 :: int] \<longrightarrow> size_q q0 < size_q q"
    "(\<forall>t \<in> set [0, 1, 2, 3 :: int]. weight (example_tasks t) \<noteq> NaN) \<longrightarrow> heap_ok q"
    "mset (take (count_q q) (tid q)) = mset [0, 1, 2, 3]" "tasks q = example_tasks"
    by blast
  have e: "size_q q = 4"
    using example_growth r(1,2) by simp
  have h: "heap_ok q" using r(5) nn by blast
  show ?thesis
    using a b c d n r(1,2,3,4,6,7) e h
    by (intro conjI exI [of _ q0] exI [of _ q]) simp_all
qed

text \<open>
  C6, as the claim states it, fails for a weight that is NaN: with \<open>queue_sizeinit = 2\<close>
  the tasks of weights 9, NaN and 5, each inserted and drained, make the heap array grow
  from 2 to 4 entries and leave it as \<open>[2, 0, 1]\<close>, the weights 5, 9 and NaN, which is
  not in heap order.
\<close>

theorem growth_nan_counterexample:
  "0 < queue_sizeinit example_params \<and> 2 \<le> queue_sizegrow example_params
   \<and> 0 < queue_incoming_size example_params \<and> 0 < queue_search_window example_params
   \<and> queue_sizeinit example_params < length [0, 1, 2 :: int]
   \<and> (case queue_init example_params malloc_always nan_tasks of
         Inr q0 \<Rightarrow>
           (case queue_run example_params malloc_always overlap_zero lock_always
                   (insert_drain [0, 1, 2]) q0 () [] of
              Some (Inr (q, l, rs)) \<Rightarrow>
                size_q q0 = 2 \<and> size_q q = 4 \<and> count_q q = 3 \<and> tid q = [2, 0, 1, 0]
                \<and> map (\<lambda>t. weight (tasks q t)) (take (count_q q) (tid q))
                    = [Float 5, Float 9, NaN]
                \<and> \<not> heap_ok q
            | _ \<Rightarrow> False)
       | _ \<Rightarrow> False)"
  by code_simp

text \<open>
  C2. The tasks 0, 1, 2 and 3, of weights 5, 1, 9 and 3, are inserted in this order into
  a freshly initialised queue and drained. With task locks that are always free and the
  same overlap score for every task when there is no previous task, four \<open>queue_gettask\<close>
  calls then return the tasks 2, 0, 3 and 1, that is the weights 9, 5, 3 and 1, and leave
  the heap empty. This holds for all positive constants (a growth factor of at least 2),
  an allocator that does not fail, and blocking and non-blocking calls alike; what the
  other tasks of the task array weigh, NaN or not, does not matter.
\<close>

theorem scenario_weight_order:
  fixes qtasks :: "int \<Rightarrow> float task"
  assumes "0 < queue_sizeinit P" and "2 \<le> queue_sizegrow P"
    and "0 < queue_incoming_size P" and "0 < queue_search_window P"
    and m: "\<forall>k. malloc_ok k"
    and lockable: "\<forall>l u. fst (task_lock l u)"
    and ov: "\<forall>u. task_overlap None u = s"
    and w: "weight (qtasks 0) = Float 5" "weight (qtasks 1) = Float 1"
      "weight (qtasks 2) = Float 9" "weight (qtasks 3) = Float 3"
  shows "\<exists>q0 q l'.
           queue_init P malloc_ok qtasks = Inr q0
         \<and> queue_run P malloc_ok task_overlap task_lock
              ([Insert 0, Insert 1, Insert 2, Insert 3, Drain]
               @ replicate 4 (Gettask None blocking)) q0 l []
             = Some (Inr (q, l', [2, 0, 3, 1]))
         \<and> map (\<lambda>t. weight (tasks q t)) [2, 0, 3, 1] = [Float 9, Float 5, Float 3, Float 1]
         \<and> count_q q = 0"
proof -
  let ?ops = "[Insert 0, Insert 1, Insert 2, Insert 3, Drain] @ replicate 4 (Gettask None blocking)"
  obtain q0 where i: "queue_init P malloc_ok qtasks = Inr q0" "ring_ok P q0 0"
    "ring_counts q0 0" "queue_wf q0" "\<not> lock q0" "tasks q0 = qtasks"
    using queue_init_ok [OF assms(1,3) m, of qtasks] by blast
  have ins: "inserted ?ops = [0, 1, 2, 3]" by (simp add: numeral_eq_Suc)
  have pos: "\<forall>t \<in> set (inserted ?ops). 0 \<le> t" unfolding ins by simp
  obtain q l' rs where
    r: "queue_run P malloc_ok task_overlap task_lock ?ops q0 l [] = Some (Inr (q, l', rs))"
    using queue_run_conserves [OF assms(2,4) m i(2,3,4,5) pos, of task_overlap task_lock l "[]"]
    by blast
  have nn: "\<forall>t \<in> set (inserted ?ops). weight (tasks q0 t) \<noteq> NaN"
    unfolding ins using w i(6) by simp
  note s = queue_run_real [OF assms(2,4) i(4) queue_init_weights [OF i(1)] nn r]
  have i0: "queue_init P malloc_ok (real_tasks qtasks) = Inr (real_queue q0)"
    using queue_init_real [of P malloc_ok qtasks] i(1) by simp
  have wr: "weight (real_tasks qtasks 0) = 5" "weight (real_tasks qtasks 1) = 1"
    "weight (real_tasks qtasks 2) = 9" "weight (real_tasks qtasks 3) = 3"
    using w by simp_all
  obtain qr lr where
    "queue_run P malloc_ok task_overlap task_lock ?ops (real_queue q0) l []
       = Some (Inr (qr, lr, [2, 0, 3, 1]))" "count_q qr = 0"
    using scenario_order_real [where task_lock = task_lock and task_overlap = task_overlap
        and l = l and blocking = blocking and malloc_ok = malloc_ok,
        OF assms(1,2,3,4) m lockable ov wr] i0
    by auto
  then have "rs = [2, 0, 3, 1]" "count_q q = 0" using s by auto
  moreover have "tasks q = qtasks" using s i(6) by simp
  ultimately show ?thesis
    using i(1) r w by (intro exI [of _ q0] exI [of _ q] exI [of _ l']) simp
qed

theorem scenario_weight_order_witness:
  "0 < queue_sizeinit example_params \<and> 2 \<le> queue_sizegrow example_params
   \<and> 0 < queue_incoming_size example_params \<and> 0 < queue_search_window example_params
   \<and> weight (example_tasks 0) = Float 5 \<and> weight (example_tasks 1) = Float 1
   \<and> weight (example_tasks 2) = Float 9 \<and> weight (example_tasks 3) = Float 3
   \<and> (\<exists>q0 q l'.
         queue_init example_params malloc_always example_tasks = Inr q0
       \<and> queue_run example_params malloc_always overlap_zero lock_always
            [Insert 0, Insert 1, Insert 2, Insert 3, Drain,
             Gettask None True, Gettask None True, Gettask None True, Gettask None True]
            q0 () [] = Some (Inr (q, l', [2, 0, 3, 1]))
       \<and> count_q q = 0)"
proof -
  have a: "0 < queue_sizeinit example_params" and b: "2 \<le> queue_sizegrow example_params"
    and c: "0 < queue_incoming_size example_params"
    and d: "0 < queue_search_window example_params"
    by (simp_all add: example_params_def)
  have m: "\<forall>k. malloc_always k" by (simp add: malloc_always_def)
  have lk: "\<forall>l u. fst (lock_always l u)" by (simp add: lock_always_def)
  have ov: "\<forall>u. overlap_zero None u = Float 0" by (simp add: overlap_zero_def)
  have w: "weight (example_tasks 0) = Float 5" "weight (example_tasks 1) = Float 1"
    "weight (example_tasks 2) = Float 9" "weight (example_tasks 3) = Float 3"
    by (simp_all add: example_tasks_def)
  have e: "replicate 4 (Gettask None True)
      = [Gettask None True, Gettask None True, Gettask None True, Gettask None True]"
    by (simp add: numeral_eq_Suc)
  from scenario_weight_order [where task_lock = lock_always and task_overlap = overlap_zero
      and l = "()" and blocking = True, OF a b c d m lk ov w]
  obtain q0 q l' where
    "queue_init example_params malloc_always example_tasks = Inr q0"
    "queue_run example_params malloc_always overlap_zero lock_always
       ([Insert 0, Insert 1, Insert 2, Insert 3, Drain] @ replicate 4 (Gettask None True))
       q0 () [] = Some (Inr (q, l', [2, 0, 3, 1]))"
    "count_q q = 0"
    by blast
  then show ?thesis
    using a b c d w e by (intro conjI exI [of _ q0] exI [of _ q] exI [of _ l']) simp_all
qed

end
